theory Spec2Isabelle
  imports Main "HOL-Library.Word"
begin

unbundle bit_operations_syntax

section \<open>Machine types\<close>

text \<open>
  A C \<open>char\<close> is a byte, \<open>uint32_t\<close> and \<open>uint64_t\<close> are words, \<open>size_t\<close> counts are
  natural numbers (no count of the program comes near \<open>2 ^ 64\<close>). A \<open>double\<close> is its
  IEEE-754 bit pattern; the operations of the C library on doubles are parameters of the
  model (record \<open>host\<close> below).
\<close>

type_synonym byte = "8 word"
type_synonym u32 = "32 word"
type_synonym u64 = "64 word"
type_synonym double = "64 word"

definition bytes_of :: "string \<Rightarrow> byte list" where
  "bytes_of s = map of_char s"

abbreviation DQUOTE :: byte where "DQUOTE \<equiv> 0x22"
abbreviation BSLASH :: byte where "BSLASH \<equiv> 0x5C"

section \<open>Value nodes and documents (json\_asm.h, internal.h)\<close>

text \<open>The enumeration \<open>json_type\<close> and the two internal string tags.\<close>

type_synonym json_type = u64

definition JSON_NULL :: json_type where "JSON_NULL = 0"
definition JSON_FALSE :: json_type where "JSON_FALSE = 1"
definition JSON_TRUE :: json_type where "JSON_TRUE = 3"
definition JSON_INT :: json_type where "JSON_INT = 4"
definition JSON_FLOAT :: json_type where "JSON_FLOAT = 5"
definition JSON_STRING :: json_type where "JSON_STRING = 6"
definition JSON_ARRAY :: json_type where "JSON_ARRAY = 8"
definition JSON_OBJECT :: json_type where "JSON_OBJECT = 9"
definition JSON_STRING_SHORT :: json_type where "JSON_STRING_SHORT = 6"
definition JSON_STRING_LONG :: json_type where "JSON_STRING_LONG = 7"

definition JSON_SHORT_STR_MAX :: nat where "JSON_SHORT_STR_MAX = 7"
definition JSON_TAG_MASK :: u64 where "JSON_TAG_MASK = 0x0F"
definition JSON_PAYLOAD_SHIFT :: nat where "JSON_PAYLOAD_SHIFT = 4"

lemmas tag_defs = JSON_NULL_def JSON_FALSE_def JSON_TRUE_def JSON_INT_def JSON_FLOAT_def
  JSON_STRING_def JSON_ARRAY_def JSON_OBJECT_def JSON_STRING_SHORT_def JSON_STRING_LONG_def
  JSON_SHORT_STR_MAX_def JSON_TAG_MASK_def JSON_PAYLOAD_SHIFT_def

text \<open>
  A node pointer is the arena block it points into and the byte offset in that block.
  \<open>arena_grow\<close> moves the arena to a new block, so the block is part of the pointer.
\<close>

datatype addr = Addr (block: nat) (offset: nat)

text \<open>
  \<open>struct json_val\<close>: the word \<open>tag_payload\<close>, and the union of \<open>child\<close>, \<open>str_ptr\<close> and
  \<open>float_val\<close> as the datatype \<open>slot\<close>, which holds what was written last. A node is kept
  with the address it was allocated at (\<open>self\<close>). The \<open>next\<close> links are the order of a
  list: \<open>Child ns\<close> is a \<open>child\<close> pointer to the head of the sibling chain \<open>ns\<close>, and
  \<open>Child []\<close> is the null pointer, which is also what \<open>memset\<close> leaves in the word.
  \<open>Str_ptr bs\<close> is a pointer into the string region, with the bytes stored from there on.
  The other members of the first union, \<open>str_len\<close> and \<open>int_ext\<close>, are never used.
\<close>

datatype json_val = Val (self: addr) (tag_payload: u64) (word2: slot)
  and slot = Child "json_val list" | Str_ptr "byte list" | Float_val double

text \<open>
  The union read as each of its members. A member is only read by the code under a tag
  whose writer stored that member, with one exception that the model keeps: the key node
  of an object member (see \<open>parse_object\<close> and \<open>json_get_str\<close>).
\<close>

fun child :: "json_val \<Rightarrow> json_val list" where
  "child (Val a tp (Child ns)) = ns"
| "child (Val a tp other) = []"

fun float_val :: "json_val \<Rightarrow> double" where
  "float_val (Val a tp (Float_val d)) = d"
| "float_val (Val a tp other) = 0"

definition set_child :: "json_val \<Rightarrow> json_val list \<Rightarrow> json_val" where
  "set_child v ns = Val (self v) (tag_payload v) (Child ns)"

definition set_str_ptr :: "json_val \<Rightarrow> byte list \<Rightarrow> json_val" where
  "set_str_ptr v bs = Val (self v) (tag_payload v) (Str_ptr bs)"

definition set_float_val :: "json_val \<Rightarrow> double \<Rightarrow> json_val" where
  "set_float_val v d = Val (self v) (tag_payload v) (Float_val d)"

definition set_tag_payload :: "json_val \<Rightarrow> u64 \<Rightarrow> json_val" where
  "set_tag_payload v w = Val (self v) w (word2 v)"

text \<open>A \<open>const char *\<close> as returned by \<open>json_get_str\<close>: what it points at.\<close>

datatype cptr =
    Null_ptr
  | Inline_ptr u64          \<comment> \<open>byte 1 of this \<open>tag_payload\<close> word\<close>
  | Region_ptr "byte list"  \<comment> \<open>the string region, holding these bytes\<close>
  | Node_ptr json_val       \<comment> \<open>the memory of a node\<close>

text \<open>
  What the model takes from the host: whether an allocation request is granted, which
  block the allocator hands to \<open>arena_create\<close> and which to \<open>arena_grow\<close> while the arena
  lives in a given block (the number of a block stands for its address), the C library's
  conversions of doubles, and the bytes that lie in memory at the address of a node (the
  layout of pointers in memory is not modelled).
\<close>

record host =
  alloc_ok :: "nat \<Rightarrow> bool"
  first_block :: nat
  next_block :: "nat \<Rightarrow> nat"
  strtod :: "byte list \<Rightarrow> double \<times> bool"
  d2i :: "double \<Rightarrow> u64"
  i2d :: "u64 \<Rightarrow> double"
  fmt_17g :: "double \<Rightarrow> byte list"
  node_bytes :: "json_val \<Rightarrow> nat \<Rightarrow> byte list"

subsection \<open>Type tag helpers\<close>

definition val_get_type :: "json_val \<Rightarrow> json_type" where
  "val_get_type v = tag_payload v AND JSON_TAG_MASK"

definition val_set_type :: "json_val \<Rightarrow> json_type \<Rightarrow> json_val" where
  "val_set_type v t = set_tag_payload v ((tag_payload v AND NOT JSON_TAG_MASK) OR t)"

definition val_get_payload :: "json_val \<Rightarrow> u64" where
  "val_get_payload v = drop_bit JSON_PAYLOAD_SHIFT (tag_payload v)"

definition val_set_payload :: "json_val \<Rightarrow> u64 \<Rightarrow> json_val" where
  "val_set_payload v p =
     set_tag_payload v ((tag_payload v AND JSON_TAG_MASK) OR push_bit JSON_PAYLOAD_SHIFT p)"

definition val_short_str_len :: "json_val \<Rightarrow> nat" where
  "val_short_str_len v = unat (drop_bit 4 (tag_payload v) AND 0x07)"

definition val_short_str_ptr :: "json_val \<Rightarrow> cptr" where
  "val_short_str_ptr v = Inline_ptr (tag_payload v)"

text \<open>Byte \<open>i\<close> of a word in memory (the supported targets are little-endian).\<close>

definition byte_of_word :: "u64 \<Rightarrow> nat \<Rightarrow> byte" where
  "byte_of_word w i = ucast (drop_bit (8 * i) w)"

definition store_byte :: "u64 \<Rightarrow> nat \<Rightarrow> byte \<Rightarrow> u64" where
  "store_byte w i b = (w AND NOT (push_bit (8 * i) 0xFF)) OR push_bit (8 * i) (ucast b)"

text \<open>\<open>memcpy\<close> of \<open>bs\<close> into a word, from byte \<open>i\<close> on.\<close>

fun store_bytes :: "u64 \<Rightarrow> nat \<Rightarrow> byte list \<Rightarrow> u64" where
  "store_bytes w i [] = w"
| "store_bytes w i (b # bs) = store_bytes (store_byte w i b) (Suc i) bs"

text \<open>Reading \<open>n\<close> bytes through a \<open>const char *\<close>.\<close>

fun cptr_read :: "host \<Rightarrow> cptr \<Rightarrow> nat \<Rightarrow> byte list" where
  "cptr_read h Null_ptr n = []"
| "cptr_read h (Inline_ptr w) n = map (\<lambda>i. byte_of_word w (Suc i)) [0..<n]"
| "cptr_read h (Region_ptr bs) n = take n bs"
| "cptr_read h (Node_ptr v) n = node_bytes h v n"

section \<open>Query API (json\_asm.c)\<close>

text \<open>A \<open>json_val *\<close> argument is \<open>None\<close> for \<open>NULL\<close> and \<open>Some\<close> of the node otherwise.\<close>

definition json_get_type :: "json_val option \<Rightarrow> json_type" where
  "json_get_type val =
     (case val of None \<Rightarrow> JSON_NULL
      | Some v \<Rightarrow>
          (let t = val_get_type v
           in if t = JSON_STRING_SHORT \<or> t = JSON_STRING_LONG then JSON_STRING else t))"

definition json_get_bool :: "json_val option \<Rightarrow> bool" where
  "json_get_bool val = (case val of None \<Rightarrow> False | Some v \<Rightarrow> val_get_type v = JSON_TRUE)"

definition json_get_int :: "host \<Rightarrow> json_val option \<Rightarrow> u64" where
  "json_get_int h val =
     (case val of None \<Rightarrow> 0
      | Some v \<Rightarrow>
          (let t = val_get_type v
           in if t = JSON_INT then
                (let payload = val_get_payload v
                 in if payload AND push_bit 59 1 \<noteq> 0
                    then payload OR 0xF000000000000000
                    else payload)
              else if t = JSON_FLOAT then d2i h (float_val v)
              else 0))"

definition json_get_uint :: "host \<Rightarrow> json_val option \<Rightarrow> u64" where
  "json_get_uint h val = (let v = json_get_int h val in if sint v < 0 then 0 else v)"

definition json_get_num :: "host \<Rightarrow> json_val option \<Rightarrow> double" where
  "json_get_num h val =
     (case val of None \<Rightarrow> 0
      | Some v \<Rightarrow>
          (let t = val_get_type v
           in if t = JSON_FLOAT then float_val v
              else if t = JSON_INT then i2d h (json_get_int h val)
              else 0))"

text \<open>
  For a long string the code returns the member \<open>str_ptr\<close> of the union. When the word
  holds a \<open>child\<close> pointer instead, the pointer returned is that node pointer.
\<close>

fun str_ptr :: "json_val \<Rightarrow> cptr" where
  "str_ptr (Val a tp (Str_ptr bs)) = Region_ptr bs"
| "str_ptr (Val a tp (Child [])) = Null_ptr"
| "str_ptr (Val a tp (Child (n # ns))) = Node_ptr n"
| "str_ptr (Val a tp (Float_val d)) = Null_ptr"

definition json_get_str :: "json_val option \<Rightarrow> cptr" where
  "json_get_str val =
     (case val of None \<Rightarrow> Null_ptr
      | Some v \<Rightarrow>
          (let t = val_get_type v
           in if t = JSON_STRING_SHORT then val_short_str_ptr v
              else if t = JSON_STRING_LONG then str_ptr v
              else Null_ptr))"

definition json_get_str_len :: "json_val option \<Rightarrow> nat" where
  "json_get_str_len val =
     (case val of None \<Rightarrow> 0
      | Some v \<Rightarrow>
          (let t = val_get_type v
           in if t = JSON_STRING_SHORT then val_short_str_len v
              else if t = JSON_STRING_LONG then unat (val_get_payload v)
              else 0))"

text \<open>The first node of a chain, as a pointer.\<close>

definition head_ptr :: "json_val list \<Rightarrow> json_val option" where
  "head_ptr ns = (case ns of [] \<Rightarrow> None | n # _ \<Rightarrow> Some n)"

text \<open>
  The loop of \<open>json_obj_getn\<close> over the key nodes. \<open>memcmp\<close> compares the \<open>key_len\<close>
  bytes behind the two pointers.
\<close>

fun obj_getn_loop :: "host \<Rightarrow> json_val list \<Rightarrow> byte list \<Rightarrow> nat \<Rightarrow> json_val option" where
  "obj_getn_loop h [] key key_len = None"
| "obj_getn_loop h (c # cs) key key_len =
     (let child_key_len = json_get_str_len (Some c)
      in if child_key_len = key_len \<and>
            json_get_str (Some c) \<noteq> Null_ptr \<and>
            cptr_read h (json_get_str (Some c)) key_len = take key_len key
         then head_ptr (child c)
         else obj_getn_loop h cs key key_len)"

definition json_obj_getn ::
  "host \<Rightarrow> json_val option \<Rightarrow> byte list option \<Rightarrow> nat \<Rightarrow> json_val option" where
  "json_obj_getn h obj key key_len =
     (case (obj, key) of
        (Some v, Some k) \<Rightarrow>
          if val_get_type v \<noteq> JSON_OBJECT then None
          else obj_getn_loop h (child v) k key_len
      | _ \<Rightarrow> None)"

text \<open>\<open>key\<close> is a C string: its bytes up to the terminator, whose count is \<open>strlen\<close>.\<close>

definition json_obj_get :: "host \<Rightarrow> json_val option \<Rightarrow> byte list option \<Rightarrow> json_val option" where
  "json_obj_get h obj key =
     (case key of None \<Rightarrow> None | Some k \<Rightarrow> json_obj_getn h obj key (length k))"

definition json_obj_has :: "host \<Rightarrow> json_val option \<Rightarrow> byte list option \<Rightarrow> bool" where
  "json_obj_has h obj key = (json_obj_get h obj key \<noteq> None)"

definition json_obj_size :: "json_val option \<Rightarrow> nat" where
  "json_obj_size obj =
     (case obj of None \<Rightarrow> 0
      | Some v \<Rightarrow> if val_get_type v \<noteq> JSON_OBJECT then 0 else length (child v))"

definition json_obj_first :: "json_val option \<Rightarrow> json_val list" where
  "json_obj_first obj =
     (case obj of None \<Rightarrow> []
      | Some v \<Rightarrow> if val_get_type v \<noteq> JSON_OBJECT then [] else child v)"

definition json_obj_key :: "json_val option \<Rightarrow> cptr" where
  "json_obj_key val = json_get_str val"

definition json_obj_key_len :: "json_val option \<Rightarrow> nat" where
  "json_obj_key_len val = json_get_str_len val"

text \<open>The walk of \<open>json_arr_get\<close>: \<open>index\<close> steps along the chain, or to its end.\<close>

fun arr_get_loop :: "json_val list \<Rightarrow> nat \<Rightarrow> json_val option" where
  "arr_get_loop [] i = None"
| "arr_get_loop (c # cs) 0 = Some c"
| "arr_get_loop (c # cs) (Suc i) = arr_get_loop cs i"

definition json_arr_get :: "json_val option \<Rightarrow> nat \<Rightarrow> json_val option" where
  "json_arr_get arr index =
     (case arr of None \<Rightarrow> None
      | Some v \<Rightarrow> if val_get_type v \<noteq> JSON_ARRAY then None else arr_get_loop (child v) index)"

definition json_arr_size :: "json_val option \<Rightarrow> nat" where
  "json_arr_size arr =
     (case arr of None \<Rightarrow> 0
      | Some v \<Rightarrow> if val_get_type v \<noteq> JSON_ARRAY then 0 else length (child v))"

definition json_arr_first :: "json_val option \<Rightarrow> json_val list" where
  "json_arr_first arr =
     (case arr of None \<Rightarrow> []
      | Some v \<Rightarrow> if val_get_type v \<noteq> JSON_ARRAY then [] else child v)"

subsection \<open>Structural equality\<close>

text \<open>Equality of two node pointers.\<close>

fun ptr_eq :: "json_val option \<Rightarrow> json_val option \<Rightarrow> bool" where
  "ptr_eq None None = True"
| "ptr_eq (Some a) (Some b) = (self a = self b)"
| "ptr_eq a b = False"

text \<open>The comparison \<open>==\<close> of two doubles, on their bit patterns.\<close>

definition isnan :: "double \<Rightarrow> bool" where
  "isnan d = (d AND 0x7FF0000000000000 = 0x7FF0000000000000 \<and> d AND 0x000FFFFFFFFFFFFF \<noteq> 0)"

definition isinf :: "double \<Rightarrow> bool" where
  "isinf d = (d AND 0x7FFFFFFFFFFFFFFF = 0x7FF0000000000000)"

definition double_eq :: "double \<Rightarrow> double \<Rightarrow> bool" where
  "double_eq a b =
     (\<not> isnan a \<and> \<not> isnan b \<and>
      (a = b \<or> (a AND 0x7FFFFFFFFFFFFFFF = 0 \<and> b AND 0x7FFFFFFFFFFFFFFF = 0)))"

function json_equals :: "host \<Rightarrow> json_val option \<Rightarrow> json_val option \<Rightarrow> bool"
  and equals_arr_loop :: "host \<Rightarrow> json_val list \<Rightarrow> json_val list \<Rightarrow> bool"
  and equals_obj_loop :: "host \<Rightarrow> json_val list \<Rightarrow> json_val option \<Rightarrow> bool"
where
  "json_equals h a b =
     (if ptr_eq a b then True
      else if a = None \<or> b = None then False
      else
        (let ta = json_get_type a; tb = json_get_type b
         in if ta \<noteq> tb then False
            else if ta = JSON_NULL \<or> ta = JSON_TRUE \<or> ta = JSON_FALSE then True
            else if ta = JSON_INT then json_get_int h a = json_get_int h b
            else if ta = JSON_FLOAT then double_eq (json_get_num h a) (json_get_num h b)
            else if ta = JSON_STRING then
              (let la = json_get_str_len a; lb = json_get_str_len b
               in if la \<noteq> lb then False
                  else cptr_read h (json_get_str a) la = cptr_read h (json_get_str b) la)
            else if ta = JSON_ARRAY then
              equals_arr_loop h (json_arr_first a) (json_arr_first b)
            else if ta = JSON_OBJECT then
              (if json_obj_size a \<noteq> json_obj_size b then False
               else equals_obj_loop h (json_obj_first a) b)
            else False))"
| "equals_arr_loop h [] [] = True"
| "equals_arr_loop h [] (cb # cbs) = False"
| "equals_arr_loop h (ca # cas) [] = False"
| "equals_arr_loop h (ca # cas) (cb # cbs) =
     (if \<not> json_equals h (Some ca) (Some cb) then False else equals_arr_loop h cas cbs)"
| "equals_obj_loop h [] b = True"
| "equals_obj_loop h (key # keys) b =
     (let va = head_ptr (child key);
          vb = json_obj_getn h b (Some (cptr_read h (json_obj_key (Some key))
                                          (json_obj_key_len (Some key))))
                 (json_obj_key_len (Some key))
      in if vb = None \<or> \<not> json_equals h va vb then False else equals_obj_loop h keys b)"
  by pat_completeness auto
termination
proof (relation "measure (\<lambda>x. case x of
          Inl (h, a, b) \<Rightarrow> (case a of None \<Rightarrow> 0 | Some v \<Rightarrow> size v)
        | Inr (Inl (h, cas, cbs)) \<Rightarrow> size_list size cas
        | Inr (Inr (h, keys, b)) \<Rightarrow> size_list size keys)", goal_cases)
  case 1
  show ?case by simp
next
  case (2 h a b ta tb)
  then obtain v where "a = Some v" by (cases a) auto
  then show ?case
    by (cases v rule: child.cases) (auto simp: json_arr_first_def)
next
  case (3 h a b ta tb)
  then obtain v where "a = Some v" by (cases a) auto
  then show ?case
    by (cases v rule: child.cases) (auto simp: json_obj_first_def)
next
  case (4 h ca cas cb cbs)
  show ?case by simp
next
  case (5 h ca cas cb cbs)
  show ?case by simp
next
  case (6 h key keys b va vb)
  then show ?case
    by (cases key rule: child.cases) (auto simp: head_ptr_def split: list.splits)
next
  case (7 h key keys b va vb)
  show ?case by simp
qed


section \<open>Arena allocator (arena.c)\<close>

text \<open>
  \<open>struct json_doc\<close>. The field \<open>arena\<close> is the block the node arena lives in: a new
  number for each block that \<open>arena_grow\<close> obtains. The pointer \<open>strings\<close> is not kept
  (the bytes of a long string are kept in its node).
\<close>

record json_doc =
  arena :: nat
  arena_size :: nat
  arena_used :: nat
  strings_size :: nat
  strings_used :: nat
  root :: "json_val option"
  value_count :: nat
  cpu_features :: u32

definition ARENA_INITIAL_SIZE :: nat where "ARENA_INITIAL_SIZE = 64 * 1024"
definition ARENA_GROWTH_FACTOR :: nat where "ARENA_GROWTH_FACTOR = 2"
definition STRING_INITIAL_SIZE :: nat where "STRING_INITIAL_SIZE = 16 * 1024"
definition ARENA_ALIGNMENT :: nat where "ARENA_ALIGNMENT = 64"

text \<open>\<open>sizeof (struct json_val)\<close> and \<open>sizeof (struct json_doc)\<close> on the 64-bit targets.\<close>

definition SIZEOF_JSON_VAL :: nat where "SIZEOF_JSON_VAL = 24"
definition SIZEOF_JSON_DOC :: nat where "SIZEOF_JSON_DOC = 72"

text \<open>\<open>(size + align - 1) & ~(align - 1)\<close>, for the power of two \<open>align\<close>.\<close>

definition align_up :: "nat \<Rightarrow> nat \<Rightarrow> nat" where
  "align_up sz align = ((sz + align - 1) div align) * align"

text \<open>\<open>aligned_alloc_impl\<close>: whether the host grants the block.\<close>

definition aligned_alloc_impl :: "host \<Rightarrow> nat \<Rightarrow> nat \<Rightarrow> bool" where
  "aligned_alloc_impl h alignment sz = alloc_ok h (align_up sz alignment)"

definition arena_create :: "host \<Rightarrow> u32 \<Rightarrow> nat \<Rightarrow> json_doc option" where
  "arena_create h g_cpu_features initial_size =
     (let initial_size = (if initial_size = 0 then ARENA_INITIAL_SIZE else initial_size);
          initial_size = align_up initial_size ARENA_ALIGNMENT
      in if \<not> alloc_ok h SIZEOF_JSON_DOC then None
         else if \<not> aligned_alloc_impl h ARENA_ALIGNMENT initial_size then None
         else if \<not> alloc_ok h STRING_INITIAL_SIZE then None
         else Some \<lparr> arena = first_block h, arena_size = initial_size, arena_used = 0,
                     strings_size = STRING_INITIAL_SIZE, strings_used = 0,
                     root = None, value_count = 0, cpu_features = g_cpu_features \<rparr>)"

text \<open>
  The loop \<open>while (new_size < target) new_size *= ARENA_GROWTH_FACTOR\<close>. From a size of 0
  the loop does not end: the result is \<open>None\<close>.
\<close>

partial_function (option) grow_size :: "nat \<Rightarrow> nat \<Rightarrow> nat option" where
  "grow_size new_size target =
     (if new_size < target then grow_size (new_size * ARENA_GROWTH_FACTOR) target
      else Some new_size)"

declare grow_size.simps [code]

text \<open>
  \<open>arena_grow\<close>: a new block is obtained, the used bytes are copied into it and the old
  block is freed. The result is \<open>None\<close> when the call does not return, and otherwise the
  value returned and the document.
\<close>

definition arena_grow :: "host \<Rightarrow> json_doc \<Rightarrow> nat \<Rightarrow> (bool \<times> json_doc) option" where
  "arena_grow h d needed =
     (case grow_size (arena_size d * ARENA_GROWTH_FACTOR) (arena_used d + needed) of
        None \<Rightarrow> None
      | Some new_size \<Rightarrow>
          (let new_size = align_up new_size ARENA_ALIGNMENT
           in if \<not> aligned_alloc_impl h ARENA_ALIGNMENT new_size then Some (False, d)
              else Some (True, d\<lparr> arena := next_block h (arena d), arena_size := new_size \<rparr>)))"

definition strings_grow :: "host \<Rightarrow> json_doc \<Rightarrow> nat \<Rightarrow> (bool \<times> json_doc) option" where
  "strings_grow h d needed =
     (case grow_size (strings_size d * ARENA_GROWTH_FACTOR) (strings_used d + needed) of
        None \<Rightarrow> None
      | Some new_size \<Rightarrow>
          if \<not> alloc_ok h new_size then Some (False, d)
          else Some (True, d\<lparr> strings_size := new_size \<rparr>))"

text \<open>
  \<open>arena_alloc_val\<close> returns the address of the new node (\<open>None\<close> for \<open>NULL\<close>); the node
  there is zeroed.
\<close>

definition bump_val :: "json_doc \<Rightarrow> addr option \<times> json_doc" where
  "bump_val d =
     (Some (Addr (arena d) (arena_used d)),
      d\<lparr> arena_used := arena_used d + SIZEOF_JSON_VAL, value_count := value_count d + 1 \<rparr>)"

definition arena_alloc_val :: "host \<Rightarrow> json_doc \<Rightarrow> (addr option \<times> json_doc) option" where
  "arena_alloc_val h d =
     (let needed = SIZEOF_JSON_VAL
      in if arena_used d + needed > arena_size d then
           (case arena_grow h d needed of
              None \<Rightarrow> None
            | Some (False, d') \<Rightarrow> Some (None, d')
            | Some (True, d') \<Rightarrow> Some (bump_val d'))
         else Some (bump_val d))"

text \<open>\<open>arena_alloc_string\<close>: whether a region of \<open>len + 1\<close> bytes was obtained.\<close>

definition bump_string :: "json_doc \<Rightarrow> nat \<Rightarrow> bool \<times> json_doc" where
  "bump_string d needed = (True, d\<lparr> strings_used := strings_used d + needed \<rparr>)"

definition arena_alloc_string :: "host \<Rightarrow> json_doc \<Rightarrow> nat \<Rightarrow> (bool \<times> json_doc) option" where
  "arena_alloc_string h d n =
     (let needed = n + 1
      in if strings_used d + needed > strings_size d then
           (case strings_grow h d needed of
              None \<Rightarrow> None
            | Some (False, d') \<Rightarrow> Some (False, d')
            | Some (True, d') \<Rightarrow> Some (bump_string d' needed))
         else Some (bump_string d needed))"

section \<open>Parser (parse.c)\<close>

datatype json_error =
    JSON_OK | JSON_ERROR_MEMORY | JSON_ERROR_SYNTAX | JSON_ERROR_DEPTH | JSON_ERROR_NUMBER
  | JSON_ERROR_STRING | JSON_ERROR_UTF8 | JSON_ERROR_IO | JSON_ERROR_TYPE

text \<open>\<open>json_error_info\<close>, without the constant text of the message.\<close>

record json_error_info =
  code :: json_error
  position :: nat
  err_line :: nat
  column :: nat

definition set_error :: "json_error \<Rightarrow> nat \<Rightarrow> nat \<Rightarrow> nat \<Rightarrow> json_error_info" where
  "set_error c p l k = \<lparr> code = c, position = p, err_line = l, column = k \<rparr>"

record json_parse_options =
  opt_flags :: u32
  opt_max_depth :: nat

definition JSON_PARSE_DEFAULT :: u32 where "JSON_PARSE_DEFAULT = 0x00"
definition JSON_PARSE_ALLOW_COMMENTS :: u32 where "JSON_PARSE_ALLOW_COMMENTS = 0x01"
definition JSON_PARSE_ALLOW_TRAILING :: u32 where "JSON_PARSE_ALLOW_TRAILING = 0x02"
definition JSON_PARSE_ALLOW_INF_NAN :: u32 where "JSON_PARSE_ALLOW_INF_NAN = 0x04"
definition JSON_PARSE_INSITU :: u32 where "JSON_PARSE_INSITU = 0x08"

text \<open>
  \<open>parser_ctx\<close>. The field \<open>input\<close> is the caller's buffer, \<open>doc\<close> the document the
  context points to.
\<close>

record parser_ctx =
  input :: "byte list"
  len :: nat
  pos :: nat
  line :: nat
  col :: nat
  doc :: json_doc
  flags :: u32
  max_depth :: nat
  depth :: nat

text \<open>
  What a descent function returns: a node, or \<open>NULL\<close> after \<open>set_error\<close> (\<open>Fail\<close>), or
  \<open>NULL\<close> because the arena gave no memory, in which case the code leaves the error
  record as it was (\<open>No_mem\<close>). \<open>No_return\<close> stands for a call that does not return.
\<close>

datatype 'a presult = Ok 'a | Fail json_error_info | No_mem | No_return

definition fail_at :: "json_error \<Rightarrow> parser_ctx \<Rightarrow> 'a presult \<times> parser_ctx" where
  "fail_at c ctx = (Fail (set_error c (pos ctx) (line ctx) (col ctx)), ctx)"

definition advance :: "nat \<Rightarrow> parser_ctx \<Rightarrow> parser_ctx" where
  "advance n ctx = ctx\<lparr> pos := pos ctx + n, col := col ctx + n \<rparr>"

text \<open>\<open>arena_alloc_val (ctx->doc)\<close>, with the zeroed node it points to.\<close>

definition ctx_alloc_val :: "host \<Rightarrow> parser_ctx \<Rightarrow> json_val presult \<times> parser_ctx" where
  "ctx_alloc_val h ctx =
     (case arena_alloc_val h (doc ctx) of
        None \<Rightarrow> (No_return, ctx)
      | Some (None, d) \<Rightarrow> (No_mem, ctx\<lparr> doc := d \<rparr>)
      | Some (Some a, d) \<Rightarrow> (Ok (Val a 0 (Child [])), ctx\<lparr> doc := d \<rparr>))"

function skip_ws :: "parser_ctx \<Rightarrow> parser_ctx" where
  "skip_ws ctx =
     (if pos ctx < len ctx then
        (let c = input ctx ! pos ctx
         in if c = 0x20 \<or> c = 0x09 \<or> c = 0x0D then
              skip_ws (ctx\<lparr> pos := pos ctx + 1, col := col ctx + 1 \<rparr>)
            else if c = 0x0A then
              skip_ws (ctx\<lparr> pos := pos ctx + 1, line := line ctx + 1, col := 1 \<rparr>)
            else ctx)
      else ctx)"
  by pat_completeness auto
termination
  by (relation "measure (\<lambda>ctx. len ctx - pos ctx)") auto

definition consume :: "parser_ctx \<Rightarrow> byte \<Rightarrow> bool \<times> parser_ctx" where
  "consume ctx0 expected =
     (let ctx = skip_ws ctx0
      in if pos ctx < len ctx \<and> input ctx ! pos ctx = expected
         then (True, advance 1 ctx)
         else (False, ctx))"

definition peek :: "parser_ctx \<Rightarrow> byte \<times> parser_ctx" where
  "peek ctx0 =
     (let ctx = skip_ws ctx0
      in if pos ctx \<ge> len ctx then (0, ctx) else (input ctx ! pos ctx, ctx))"

definition parse_null :: "host \<Rightarrow> parser_ctx \<Rightarrow> json_val presult \<times> parser_ctx" where
  "parse_null h ctx =
     (if pos ctx + 4 \<le> len ctx \<and>
         input ctx ! pos ctx = 0x6E \<and>
         input ctx ! (pos ctx + 1) = 0x75 \<and>
         input ctx ! (pos ctx + 2) = 0x6C \<and>
         input ctx ! (pos ctx + 3) = 0x6C then
        (case ctx_alloc_val h (advance 4 ctx) of
           (Ok val, ctx') \<Rightarrow> (Ok (val_set_type val JSON_NULL), ctx')
         | (r, ctx') \<Rightarrow> (r, ctx'))
      else fail_at JSON_ERROR_SYNTAX ctx)"

definition parse_true :: "host \<Rightarrow> parser_ctx \<Rightarrow> json_val presult \<times> parser_ctx" where
  "parse_true h ctx =
     (if pos ctx + 4 \<le> len ctx \<and>
         input ctx ! pos ctx = 0x74 \<and>
         input ctx ! (pos ctx + 1) = 0x72 \<and>
         input ctx ! (pos ctx + 2) = 0x75 \<and>
         input ctx ! (pos ctx + 3) = 0x65 then
        (case ctx_alloc_val h (advance 4 ctx) of
           (Ok val, ctx') \<Rightarrow> (Ok (val_set_type val JSON_TRUE), ctx')
         | (r, ctx') \<Rightarrow> (r, ctx'))
      else fail_at JSON_ERROR_SYNTAX ctx)"

definition parse_false :: "host \<Rightarrow> parser_ctx \<Rightarrow> json_val presult \<times> parser_ctx" where
  "parse_false h ctx =
     (if pos ctx + 5 \<le> len ctx \<and>
         input ctx ! pos ctx = 0x66 \<and>
         input ctx ! (pos ctx + 1) = 0x61 \<and>
         input ctx ! (pos ctx + 2) = 0x6C \<and>
         input ctx ! (pos ctx + 3) = 0x73 \<and>
         input ctx ! (pos ctx + 4) = 0x65 then
        (case ctx_alloc_val h (advance 5 ctx) of
           (Ok val, ctx') \<Rightarrow> (Ok (val_set_type val JSON_FALSE), ctx')
         | (r, ctx') \<Rightarrow> (r, ctx'))
      else fail_at JSON_ERROR_SYNTAX ctx)"


subsection \<open>Numbers\<close>

definition isdigit :: "byte \<Rightarrow> bool" where
  "isdigit c = (0x30 \<le> c \<and> c \<le> 0x39)"

text \<open>The loop \<open>while (i < remaining && isdigit (start[i])) i++\<close>, on positions of the input.\<close>

function digits_end :: "byte list \<Rightarrow> nat \<Rightarrow> nat \<Rightarrow> nat" where
  "digits_end inp n i = (if i < n \<and> isdigit (inp ! i) then digits_end inp n (i + 1) else i)"
  by pat_completeness auto
termination
  by (relation "measure (\<lambda>(inp, n, i). n - i)") auto

text \<open>
  The C library's \<open>strtoll\<close> in base 10 on the bytes that lie in memory from its
  argument on: it reads a minus sign, if there is one, and the digits that follow, as far
  as they go (\<open>parse_number\<close> calls it at a minus sign or a digit, so that white space
  and a plus sign need no model). The result is the value, and whether \<open>errno\<close> is
  \<open>ERANGE\<close>, in which case the value is the nearest bound.
\<close>

definition LLONG_MAX :: int where "LLONG_MAX = 9223372036854775807"
definition LLONG_MIN :: int where "LLONG_MIN = - 9223372036854775808"

fun digits_value :: "byte list \<Rightarrow> int \<Rightarrow> int" where
  "digits_value [] acc = acc"
| "digits_value (c # cs) acc = digits_value cs (acc * 10 + (uint c - 0x30))"

definition token_value :: "byte list \<Rightarrow> int" where
  "token_value tok =
     (case tok of [] \<Rightarrow> 0
      | c # cs \<Rightarrow> if c = 0x2D then - digits_value cs 0 else digits_value tok 0)"

definition strtoll :: "byte list \<Rightarrow> int \<times> bool" where
  "strtoll nptr =
     (let tok = (case nptr of [] \<Rightarrow> []
                 | c # cs \<Rightarrow> if c = 0x2D then c # takeWhile isdigit cs
                            else takeWhile isdigit nptr);
          v = token_value tok
      in if v > LLONG_MAX then (LLONG_MAX, True)
         else if v < LLONG_MIN then (LLONG_MIN, True)
         else (v, False))"

text \<open>
  \<open>parse_number\<close>. The index \<open>i\<close> of the code counts from \<open>start\<close>; the model keeps the
  position \<open>pos + i\<close> in the input. \<open>strtod\<close> and \<open>strtoll\<close> are called at \<open>start\<close> and
  are not told where the scan ended: they are given the bytes of the buffer from
  \<open>start\<close> on, those after the first \<open>len\<close> bytes included.
\<close>

definition parse_number :: "host \<Rightarrow> parser_ctx \<Rightarrow> json_val presult \<times> parser_ctx" where
  "parse_number h ctx =
     (let inp = input ctx; n = len ctx; start = pos ctx;
          i = (if start < n \<and> inp ! start = 0x2D then start + 1 else start)
      in if i \<ge> n \<or> \<not> isdigit (inp ! i) then fail_at JSON_ERROR_NUMBER ctx
         else if inp ! i = 0x30 \<and> i + 1 < n \<and> isdigit (inp ! (i + 1))
           then fail_at JSON_ERROR_NUMBER ctx
         else
           (let i = digits_end inp n i;
                has_frac = (i < n \<and> inp ! i = 0x2E)
            in if has_frac \<and> (i + 1 \<ge> n \<or> \<not> isdigit (inp ! (i + 1)))
                 then fail_at JSON_ERROR_NUMBER ctx
               else
                 (let i = (if has_frac then digits_end inp n (i + 1) else i);
                      has_exp = (i < n \<and> (inp ! i = 0x65 \<or> inp ! i = 0x45));
                      j = (if has_exp
                           then (if i + 1 < n \<and> (inp ! (i + 1) = 0x2B \<or> inp ! (i + 1) = 0x2D)
                                 then i + 2 else i + 1)
                           else i)
                  in if has_exp \<and> (j \<ge> n \<or> \<not> isdigit (inp ! j))
                       then fail_at JSON_ERROR_NUMBER ctx
                     else
                       (let i = (if has_exp then digits_end inp n j else i);
                            is_float = (has_frac \<or> has_exp);
                            tok = drop start inp
                        in case ctx_alloc_val h ctx of
                             (Ok val, ctx') \<Rightarrow>
                               if is_float then
                                 (let (d, erange) = strtod h tok
                                  in if erange then fail_at JSON_ERROR_NUMBER ctx'
                                     else (Ok (set_float_val (val_set_type val JSON_FLOAT) d),
                                           advance (i - start) ctx'))
                               else
                                 (let (ll, erange) = strtoll tok
                                  in if erange then
                                       (let (d, erange') = strtod h tok
                                        in (Ok (set_float_val (val_set_type val JSON_FLOAT) d),
                                            advance (i - start) ctx'))
                                     else
                                       (Ok (val_set_payload (val_set_type val JSON_INT)
                                              (word_of_int ll AND 0x0FFFFFFFFFFFFFFF)),
                                        advance (i - start) ctx'))
                           | (r, ctx') \<Rightarrow> (r, ctx')))))"

subsection \<open>Strings\<close>

text \<open>\<open>hex_digit\<close>; a byte from \<open>0x80\<close> on is a negative \<open>char\<close> and in none of the ranges.\<close>

definition hex_digit :: "byte \<Rightarrow> int" where
  "hex_digit c =
     (if 0x30 \<le> c \<and> c \<le> 0x39 then uint c - 0x30
      else if 0x61 \<le> c \<and> c \<le> 0x66 then uint c - 0x61 + 10
      else if 0x41 \<le> c \<and> c \<le> 0x46 then uint c - 0x41 + 10
      else - 1)"

text \<open>The loop of \<open>parse_unicode_escape\<close> over four digits, from digit \<open>i\<close> on.\<close>

function unicode_loop :: "byte list \<Rightarrow> nat \<Rightarrow> nat \<Rightarrow> u32 \<Rightarrow> u32 option" where
  "unicode_loop inp p i cp =
     (if i < 4 then
        (let d = hex_digit (inp ! (p + i))
         in if d < 0 then None
            else unicode_loop inp p (i + 1) (push_bit 4 cp OR word_of_int d))
      else Some cp)"
  by pat_completeness auto
termination
  by (relation "measure (\<lambda>(inp, p, i, cp). 4 - i)") auto

text \<open>The code point is \<open>None\<close> when the code returns \<open>-1\<close>.\<close>

definition parse_unicode_escape :: "parser_ctx \<Rightarrow> u32 option \<times> parser_ctx" where
  "parse_unicode_escape ctx =
     (if pos ctx + 4 > len ctx then (None, ctx)
      else (case unicode_loop (input ctx) (pos ctx) 0 0 of
              None \<Rightarrow> (None, ctx)
            | Some cp \<Rightarrow> (Some cp, advance 4 ctx)))"

text \<open>\<open>encode_utf8\<close>: the bytes written to \<open>buf\<close>; their number is the value returned.\<close>

definition encode_utf8 :: "u32 \<Rightarrow> byte list" where
  "encode_utf8 cp =
     (if cp < 0x80 then [ucast cp]
      else if cp < 0x800 then
        [ucast (0xC0 OR drop_bit 6 cp), ucast (0x80 OR (cp AND 0x3F))]
      else if cp < 0x10000 then
        [ucast (0xE0 OR drop_bit 12 cp), ucast (0x80 OR (drop_bit 6 cp AND 0x3F)),
         ucast (0x80 OR (cp AND 0x3F))]
      else if cp \<le> 0x10FFFF then
        [ucast (0xF0 OR drop_bit 18 cp), ucast (0x80 OR (drop_bit 12 cp AND 0x3F)),
         ucast (0x80 OR (drop_bit 6 cp AND 0x3F)), ucast (0x80 OR (cp AND 0x3F))]
      else [])"

definition surrogate_pair :: "u32 \<Rightarrow> u32 \<Rightarrow> u32" where
  "surrogate_pair cp cp2 = 0x10000 + push_bit 10 (cp - 0xD800) + (cp2 - 0xDC00)"

definition simple_escape :: "byte \<Rightarrow> bool" where
  "simple_escape esc =
     (esc = DQUOTE \<or> esc = BSLASH \<or> esc = 0x2F \<or> esc = 0x62 \<or>
      esc = 0x66 \<or> esc = 0x6E \<or> esc = 0x72 \<or> esc = 0x74)"

lemma parse_unicode_escape_Some:
  "parse_unicode_escape ctx = (Some cp, ctx') \<Longrightarrow> ctx' = advance 4 ctx"
  by (auto simp: parse_unicode_escape_def split: if_splits option.splits)

text \<open>
  The first pass of \<open>parse_string\<close>, from the byte after the opening quote: the loop that
  measures the decoded length \<open>slen\<close> and notes escapes. It ends at the closing quote or
  at the end of the input (\<open>Inr\<close>), or with an error (\<open>Inl\<close>).
\<close>

function string_measure ::
  "parser_ctx \<Rightarrow> nat \<Rightarrow> bool \<Rightarrow> (json_error_info + nat \<times> bool) \<times> parser_ctx" where
  "string_measure ctx slen has_escapes =
     (if pos ctx < len ctx then
        (let c = input ctx ! pos ctx
         in if c = DQUOTE then (Inr (slen, has_escapes), ctx)
            else if c = BSLASH then
              (let ctx1 = advance 1 ctx
               in if pos ctx1 \<ge> len ctx1 then
                    (Inl (set_error JSON_ERROR_STRING (pos ctx1) (line ctx1) (col ctx1)), ctx1)
                  else
                    (let esc = input ctx1 ! pos ctx1
                     in if simple_escape esc then string_measure (advance 1 ctx1) (slen + 1) True
                        else if esc = 0x75 then
                          (case parse_unicode_escape (advance 1 ctx1) of
                             (None, ctx3) \<Rightarrow>
                               (Inl (set_error JSON_ERROR_STRING (pos ctx3) (line ctx3) (col ctx3)), ctx3)
                           | (Some cp, ctx3) \<Rightarrow>
                               if 0xD800 \<le> cp \<and> cp \<le> 0xDBFF then
                                 (if pos ctx3 + 2 > len ctx3 \<or>
                                     input ctx3 ! pos ctx3 \<noteq> BSLASH \<or>
                                     input ctx3 ! (pos ctx3 + 1) \<noteq> 0x75 then
                                    (Inl (set_error JSON_ERROR_STRING
                                            (pos ctx3) (line ctx3) (col ctx3)), ctx3)
                                  else
                                    (case parse_unicode_escape (advance 2 ctx3) of
                                       (None, ctx5) \<Rightarrow>
                                         (Inl (set_error JSON_ERROR_STRING
                                                 (pos ctx5) (line ctx5) (col ctx5)), ctx5)
                                     | (Some cp2, ctx5) \<Rightarrow>
                                         if cp2 < 0xDC00 \<or> cp2 > 0xDFFF then
                                           (Inl (set_error JSON_ERROR_STRING
                                                   (pos ctx5) (line ctx5) (col ctx5)), ctx5)
                                         else
                                           string_measure ctx5
                                             (slen + length (encode_utf8 (surrogate_pair cp cp2)))
                                             True))
                               else string_measure ctx3 (slen + length (encode_utf8 cp)) True)
                        else
                          (Inl (set_error JSON_ERROR_STRING (pos ctx1) (line ctx1) (col ctx1)),
                           ctx1)))
            else if c < 0x20 then
              (Inl (set_error JSON_ERROR_STRING (pos ctx) (line ctx) (col ctx)), ctx)
            else string_measure (advance 1 ctx) (slen + 1) has_escapes)
      else (Inr (slen, has_escapes), ctx))"
  by pat_completeness auto
termination
  by (relation "measure (\<lambda>(ctx, slen, e). len ctx - pos ctx)")
     (auto simp: advance_def dest!: parse_unicode_escape_Some [OF sym])

text \<open>
  The second pass, run when the string has escapes: the four digits are read again, now
  unchecked, and the decoded bytes are appended to \<open>out\<close>.
\<close>

definition hex4 :: "byte list \<Rightarrow> nat \<Rightarrow> u32" where
  "hex4 inp p =
     foldl (\<lambda>cp i. push_bit 4 cp OR word_of_int (hex_digit (inp ! (p + i)))) 0 [0, 1, 2, 3]"

function string_decode :: "byte list \<Rightarrow> nat \<Rightarrow> nat \<Rightarrow> byte list \<Rightarrow> byte list" where
  "string_decode inp src_pos src_end out =
     (if src_pos < src_end then
        (let c = inp ! src_pos
         in if c = BSLASH then
              (let esc = inp ! (src_pos + 1); p = src_pos + 2
               in if esc = DQUOTE then string_decode inp p src_end (out @ [DQUOTE])
                  else if esc = BSLASH then string_decode inp p src_end (out @ [BSLASH])
                  else if esc = 0x2F then string_decode inp p src_end (out @ [0x2F])
                  else if esc = 0x62 then string_decode inp p src_end (out @ [0x08])
                  else if esc = 0x66 then string_decode inp p src_end (out @ [0x0C])
                  else if esc = 0x6E then string_decode inp p src_end (out @ [0x0A])
                  else if esc = 0x72 then string_decode inp p src_end (out @ [0x0D])
                  else if esc = 0x74 then string_decode inp p src_end (out @ [0x09])
                  else if esc = 0x75 then
                    (let cp = hex4 inp p
                     in if 0xD800 \<le> cp \<and> cp \<le> 0xDBFF then
                          string_decode inp (p + 10) src_end
                            (out @ encode_utf8 (surrogate_pair cp (hex4 inp (p + 6))))
                        else string_decode inp (p + 4) src_end (out @ encode_utf8 cp))
                  else string_decode inp p src_end out)
            else string_decode inp (src_pos + 1) src_end (out @ [c]))
      else out)"
  by pat_completeness auto
termination
  by (relation "measure (\<lambda>(inp, src_pos, src_end, out). src_end - src_pos)") auto

definition parse_string :: "host \<Rightarrow> parser_ctx \<Rightarrow> json_val presult \<times> parser_ctx" where
  "parse_string h ctx0 =
     (if pos ctx0 \<ge> len ctx0 \<or> input ctx0 ! pos ctx0 \<noteq> DQUOTE
        then fail_at JSON_ERROR_SYNTAX ctx0
      else
        (let ctx1 = advance 1 ctx0; start = pos ctx1
         in case string_measure ctx1 0 False of
              (Inl e, ctx2) \<Rightarrow> (Fail e, ctx2)
            | (Inr (slen, has_escapes), ctx2) \<Rightarrow>
                if pos ctx2 \<ge> len ctx2 then fail_at JSON_ERROR_STRING ctx2
                else
                  (case ctx_alloc_val h (advance 1 ctx2) of
                     (Ok val, ctx4) \<Rightarrow>
                       if \<not> has_escapes \<and> slen \<le> JSON_SHORT_STR_MAX then
                         (let val = val_set_type val JSON_STRING_SHORT;
                              val = set_tag_payload val
                                      (JSON_STRING_SHORT OR push_bit 4 (of_nat slen));
                              val = set_tag_payload val
                                      (store_bytes (tag_payload val) 1
                                         (take slen (drop start (input ctx4))))
                          in (Ok val, ctx4))
                       else
                         (case arena_alloc_string h (doc ctx4) slen of
                            None \<Rightarrow> (No_return, ctx4)
                          | Some (False, d) \<Rightarrow> (No_mem, ctx4\<lparr> doc := d \<rparr>)
                          | Some (True, d) \<Rightarrow>
                              (let str = (if \<not> has_escapes
                                          then take slen (drop start (input ctx4)) @ [0]
                                          else string_decode (input ctx4) start (pos ctx4 - 1) []
                                               @ [0]);
                                   val = val_set_type val JSON_STRING_LONG;
                                   val = val_set_payload val (of_nat slen);
                                   val = set_str_ptr val str
                               in (Ok val, ctx4\<lparr> doc := d \<rparr>)))
                   | (r, ctx4) \<Rightarrow> (r, ctx4))))"


subsection \<open>Values, arrays and objects\<close>

text \<open>
  The descent functions call each other; each call takes one unit of \<open>fuel\<close>, and a call
  without fuel is \<open>No_return\<close>. The loops of \<open>parse_array\<close> and \<open>parse_object\<close> carry the
  node of the container and the chain linked so far: \<open>arr->child = first\<close> and
  \<open>prev->next = elem\<close> append \<open>elem\<close> to the chain of \<open>arr\<close>.
\<close>

fun parse_value :: "host \<Rightarrow> nat \<Rightarrow> parser_ctx \<Rightarrow> json_val presult \<times> parser_ctx"
  and parse_array :: "host \<Rightarrow> nat \<Rightarrow> parser_ctx \<Rightarrow> json_val presult \<times> parser_ctx"
  and parse_array_loop ::
    "host \<Rightarrow> nat \<Rightarrow> parser_ctx \<Rightarrow> json_val \<Rightarrow> json_val list \<Rightarrow> json_val presult \<times> parser_ctx"
  and parse_object :: "host \<Rightarrow> nat \<Rightarrow> parser_ctx \<Rightarrow> json_val presult \<times> parser_ctx"
  and parse_object_loop ::
    "host \<Rightarrow> nat \<Rightarrow> parser_ctx \<Rightarrow> json_val \<Rightarrow> json_val list \<Rightarrow> json_val presult \<times> parser_ctx"
where
  "parse_value h 0 ctx0 = (No_return, ctx0)"
| "parse_value h (Suc fuel) ctx0 =
     (case peek ctx0 of (c, ctx) \<Rightarrow>
        if c = 0x6E then parse_null h ctx
        else if c = 0x74 then parse_true h ctx
        else if c = 0x66 then parse_false h ctx
        else if c = DQUOTE then parse_string h ctx
        else if c = 0x5B then parse_array h fuel ctx
        else if c = 0x7B then parse_object h fuel ctx
        else if c = 0x2D \<or> isdigit c then parse_number h ctx
        else if c = 0 then fail_at JSON_ERROR_SYNTAX ctx
        else fail_at JSON_ERROR_SYNTAX ctx)"
| "parse_array h 0 ctx0 = (No_return, ctx0)"
| "parse_array h (Suc fuel) ctx0 =
     (case consume ctx0 0x5B of
        (False, ctx) \<Rightarrow> fail_at JSON_ERROR_SYNTAX ctx
      | (True, ctx) \<Rightarrow>
          if max_depth ctx > 0 \<and> depth ctx \<ge> max_depth ctx then fail_at JSON_ERROR_DEPTH ctx
          else
            (case ctx_alloc_val h (ctx\<lparr> depth := depth ctx + 1 \<rparr>) of
               (Ok arr0, ctx1) \<Rightarrow>
                 (let arr = val_set_type arr0 JSON_ARRAY
                  in case peek ctx1 of (c, ctx2) \<Rightarrow>
                       if c = 0x5D then
                         (case consume ctx2 0x5D of (b, ctx3) \<Rightarrow>
                            (Ok arr, ctx3\<lparr> depth := depth ctx3 - 1 \<rparr>))
                       else parse_array_loop h fuel ctx2 arr [])
             | (r, ctx1) \<Rightarrow> (r, ctx1)))"
| "parse_array_loop h 0 ctx0 arr elems = (No_return, ctx0)"
| "parse_array_loop h (Suc fuel) ctx0 arr elems =
     (case parse_value h fuel ctx0 of
        (Ok elem, ctx) \<Rightarrow>
          (let arr = set_child arr (elems @ [elem])
           in case peek ctx of (c, ctx1) \<Rightarrow>
                if c = 0x5D then
                  (case consume ctx1 0x5D of (b, ctx2) \<Rightarrow>
                     (Ok arr, ctx2\<lparr> depth := depth ctx2 - 1 \<rparr>))
                else
                  (case consume ctx1 0x2C of
                     (False, ctx2) \<Rightarrow> fail_at JSON_ERROR_SYNTAX ctx2
                   | (True, ctx2) \<Rightarrow>
                       if flags ctx2 AND JSON_PARSE_ALLOW_TRAILING \<noteq> 0 then
                         (case peek ctx2 of (c', ctx3) \<Rightarrow>
                            if c' = 0x5D then
                              (case consume ctx3 0x5D of (b, ctx4) \<Rightarrow>
                                 (Ok arr, ctx4\<lparr> depth := depth ctx4 - 1 \<rparr>))
                            else parse_array_loop h fuel ctx3 arr (elems @ [elem]))
                       else parse_array_loop h fuel ctx2 arr (elems @ [elem])))
      | (r, ctx) \<Rightarrow> (r, ctx))"
| "parse_object h 0 ctx0 = (No_return, ctx0)"
| "parse_object h (Suc fuel) ctx0 =
     (case consume ctx0 0x7B of
        (False, ctx) \<Rightarrow> fail_at JSON_ERROR_SYNTAX ctx
      | (True, ctx) \<Rightarrow>
          if max_depth ctx > 0 \<and> depth ctx \<ge> max_depth ctx then fail_at JSON_ERROR_DEPTH ctx
          else
            (case ctx_alloc_val h (ctx\<lparr> depth := depth ctx + 1 \<rparr>) of
               (Ok obj0, ctx1) \<Rightarrow>
                 (let obj = val_set_type obj0 JSON_OBJECT
                  in case peek ctx1 of (c, ctx2) \<Rightarrow>
                       if c = 0x7D then
                         (case consume ctx2 0x7D of (b, ctx3) \<Rightarrow>
                            (Ok obj, ctx3\<lparr> depth := depth ctx3 - 1 \<rparr>))
                       else parse_object_loop h fuel ctx2 obj [])
             | (r, ctx1) \<Rightarrow> (r, ctx1)))"
| "parse_object_loop h 0 ctx0 obj members = (No_return, ctx0)"
| "parse_object_loop h (Suc fuel) ctx0 obj members =
     (case peek ctx0 of (c0, ctxa) \<Rightarrow>
        if c0 \<noteq> DQUOTE then fail_at JSON_ERROR_SYNTAX ctxa
        else
          (case parse_string h ctxa of
             (Ok key0, ctxb) \<Rightarrow>
               (case consume ctxb 0x3A of
                  (False, ctxc) \<Rightarrow> fail_at JSON_ERROR_SYNTAX ctxc
                | (True, ctxc) \<Rightarrow>
                    (case parse_value h fuel ctxc of
                       (Ok v, ctx) \<Rightarrow>
                         (let key = set_child key0 [v];
                              obj = set_child obj (members @ [key])
                          in case peek ctx of (c, ctx1) \<Rightarrow>
                               if c = 0x7D then
                                 (case consume ctx1 0x7D of (b, ctx2) \<Rightarrow>
                                    (Ok obj, ctx2\<lparr> depth := depth ctx2 - 1 \<rparr>))
                               else
                                 (case consume ctx1 0x2C of
                                    (False, ctx2) \<Rightarrow> fail_at JSON_ERROR_SYNTAX ctx2
                                  | (True, ctx2) \<Rightarrow>
                                      if flags ctx2 AND JSON_PARSE_ALLOW_TRAILING \<noteq> 0 then
                                        (case peek ctx2 of (c', ctx3) \<Rightarrow>
                                           if c' = 0x7D then
                                             (case consume ctx3 0x7D of (b, ctx4) \<Rightarrow>
                                                (Ok obj, ctx4\<lparr> depth := depth ctx4 - 1 \<rparr>))
                                           else parse_object_loop h fuel ctx3 obj (members @ [key]))
                                      else parse_object_loop h fuel ctx2 obj (members @ [key])))
                     | (r, ctx) \<Rightarrow> (r, ctx)))
           | (r, ctxb) \<Rightarrow> (r, ctxb)))"

text \<open>
  \<open>parse_json\<close>. The buffer \<open>json\<close> is the bytes that lie in memory from the caller's
  pointer on, of which the parser is given the first \<open>n\<close> (the argument \<open>len\<close> of the
  code). The thread's error record \<open>g_last_error\<close> is passed in and returned with the
  document (\<open>None\<close> for \<open>NULL\<close>) and the caller's buffer. The fuel given to
  \<open>parse_value\<close> is more than a parse of \<open>n\<close> bytes can use.
\<close>

definition parse_fuel :: "nat \<Rightarrow> nat" where
  "parse_fuel n = 3 * n + 3"

definition parse_json ::
  "host \<Rightarrow> u32 \<Rightarrow> json_error_info \<Rightarrow> byte list \<Rightarrow> nat \<Rightarrow> json_parse_options option
   \<Rightarrow> (json_doc option \<times> json_error_info \<times> byte list) option" where
  "parse_json h g_cpu_features g_last_error json n opts =
     (let estimated_values = n div 4 + 1;
          arena_sz = estimated_values * SIZEOF_JSON_VAL;
          arena_sz = (if arena_sz < 64 * 1024 then 64 * 1024 else arena_sz)
      in case arena_create h g_cpu_features arena_sz of
           None \<Rightarrow> Some (None, set_error JSON_ERROR_MEMORY 0 0 0, json)
         | Some d \<Rightarrow>
             (let ctx0 = \<lparr> input = json, len = n, pos = 0, line = 1, col = 1, doc = d,
                           flags = (case opts of None \<Rightarrow> JSON_PARSE_DEFAULT
                                    | Some opt \<Rightarrow> opt_flags opt),
                           max_depth = (case opts of None \<Rightarrow> 0
                                        | Some opt \<Rightarrow> opt_max_depth opt),
                           depth = 0 \<rparr>
              in case parse_value h (parse_fuel n) ctx0 of
                   (Ok r, ctx1) \<Rightarrow>
                     (let ctx2 = skip_ws (ctx1\<lparr> doc := (doc ctx1)\<lparr> root := Some r \<rparr> \<rparr>)
                      in if pos ctx2 < len ctx2 then
                           Some (None,
                                 set_error JSON_ERROR_SYNTAX (pos ctx2) (line ctx2) (col ctx2),
                                 input ctx2)
                         else Some (Some (doc ctx2), g_last_error, input ctx2))
                 | (Fail e, ctx1) \<Rightarrow> Some (None, e, input ctx1)
                 | (No_mem, ctx1) \<Rightarrow> Some (None, g_last_error, input ctx1)
                 | (No_return, ctx1) \<Rightarrow> None))"

text \<open>\<open>json_parse_opts\<close> (json\_asm.c); \<open>json\<close> is \<open>None\<close> for a null pointer.\<close>

definition json_parse_opts ::
  "host \<Rightarrow> u32 \<Rightarrow> json_error_info \<Rightarrow> byte list option \<Rightarrow> nat \<Rightarrow> json_parse_options option
   \<Rightarrow> (json_doc option \<times> json_error_info \<times> byte list option) option" where
  "json_parse_opts h g_cpu_features g_last_error json n opts =
     (case json of
        None \<Rightarrow> Some (None, set_error JSON_ERROR_SYNTAX 0 1 1, None)
      | Some bs \<Rightarrow>
          if n = 0 then Some (None, set_error JSON_ERROR_SYNTAX 0 1 1, Some bs)
          else (case parse_json h g_cpu_features g_last_error bs n opts of
                  None \<Rightarrow> None
                | Some (d, e, bs') \<Rightarrow> Some (d, e, Some bs')))"

definition json_parse ::
  "host \<Rightarrow> u32 \<Rightarrow> json_error_info \<Rightarrow> byte list option \<Rightarrow> nat
   \<Rightarrow> (json_doc option \<times> json_error_info \<times> byte list option) option" where
  "json_parse h g_cpu_features g_last_error json n =
     json_parse_opts h g_cpu_features g_last_error json n None"

definition json_doc_root :: "json_doc option \<Rightarrow> json_val option" where
  "json_doc_root d = (case d of None \<Rightarrow> None | Some d' \<Rightarrow> root d')"



subsection \<open>What the first pass establishes\<close>

text \<open>
  The relation between a call of \<open>string_measure\<close> and its result: only \<open>pos\<close> and \<open>col\<close>
  of the context change, and when the loop ends without error the length it adds (from
  \<open>slen\<close> to \<open>slen'\<close>) is the number of bytes the second pass produces over the same
  bytes, and is the number of bytes passed when no escape was seen.
\<close>

definition measure_post ::
  "parser_ctx \<Rightarrow> nat \<Rightarrow> bool \<Rightarrow> (json_error_info + nat \<times> bool) \<Rightarrow> parser_ctx \<Rightarrow> bool" where
  "measure_post ctx slen esc r cx =
     (cx = ctx\<lparr> pos := pos cx, col := col cx \<rparr> \<and> pos ctx \<le> pos cx \<and>
      (\<forall>slen' esc'. r = Inr (slen', esc') \<longrightarrow>
         slen \<le> slen' \<and> (esc \<longrightarrow> esc') \<and>
         (\<forall>out. length (string_decode (input ctx) (pos ctx) (pos cx) out) =
                 length out + (slen' - slen)) \<and>
         (\<not> esc' \<longrightarrow> slen' - slen = pos cx - pos ctx)))"


text \<open>Inputs of the concrete runs.\<close>

definition grinning_face :: "byte list" where
  "grinning_face =
     [DQUOTE, BSLASH, 0x75, 0x44, 0x38, 0x33, 0x44, BSLASH, 0x75, 0x44, 0x45, 0x30, 0x30, DQUOTE]"

definition lone_surrogate :: "byte list" where
  "lone_surrogate = [DQUOTE, BSLASH, 0x75, 0x44, 0x38, 0x33, 0x44, 0x78, DQUOTE]"

definition ctx_at :: "byte list \<Rightarrow> nat \<Rightarrow> parser_ctx" where
  "ctx_at bs p =
     \<lparr> input = bs, len = length bs, pos = p, line = 1, col = 1 + p,
       doc = \<lparr> arena = 0, arena_size = 65536, arena_used = 0, strings_size = 16384,
               strings_used = 0, root = None, value_count = 0, cpu_features = 0 \<rparr>,
       flags = 0, max_depth = 0, depth = 0 \<rparr>"

definition long_key_object :: "byte list" where
  "long_key_object = [0x7B, DQUOTE] @ bytes_of ''abcdefgh'' @ [DQUOTE, 0x3A, 0x31, 0x7D]"

definition long_string :: "byte list" where
  "long_string = [DQUOTE] @ bytes_of ''abcdefgh'' @ [DQUOTE]"


section \<open>Evaluation\<close>

text \<open>
  The equations of the loops are unfolded on demand: as rewrite rules they are used for
  runs on concrete inputs only.
\<close>

declare skip_ws.simps [simp del] digits_end.simps [simp del] unicode_loop.simps [simp del]
  string_measure.simps [simp del] string_decode.simps [simp del]

lemmas loop_simps = skip_ws.simps digits_end.simps unicode_loop.simps string_measure.simps
  string_decode.simps

text \<open>
  A host for the concrete runs below: it grants every request, and its conversions of
  doubles are constant.
\<close>

definition plain_host :: host where
  "plain_host =
     \<lparr> alloc_ok = (\<lambda>n. True), first_block = 0, next_block = Suc, strtod = (\<lambda>bs. (0, False)), d2i = (\<lambda>d. 0), i2d = (\<lambda>i. 0),
       fmt_17g = (\<lambda>d. [0x30]), node_bytes = (\<lambda>v n. replicate n 0) \<rparr>"

definition no_error :: json_error_info where
  "no_error = set_error JSON_OK 0 0 0"

lemmas arena_defs = arena_create_def arena_alloc_val_def arena_grow_def bump_val_def
  arena_alloc_string_def strings_grow_def bump_string_def align_up_def aligned_alloc_impl_def
  ARENA_INITIAL_SIZE_def ARENA_GROWTH_FACTOR_def STRING_INITIAL_SIZE_def ARENA_ALIGNMENT_def
  SIZEOF_JSON_VAL_def SIZEOF_JSON_DOC_def

lemmas node_defs = val_get_type_def val_set_type_def val_get_payload_def val_set_payload_def
  val_short_str_len_def val_short_str_ptr_def set_child_def set_str_ptr_def set_float_val_def
  set_tag_payload_def byte_of_word_def store_byte_def

lemmas parse_defs = parse_json_def parse_fuel_def ctx_alloc_val_def fail_at_def advance_def
  set_error_def consume_def peek_def parse_null_def parse_true_def parse_false_def
  parse_number_def isdigit_def strtoll_def token_value_def LLONG_MAX_def LLONG_MIN_def
  parse_string_def parse_unicode_escape_def hex_digit_def encode_utf8_def surrogate_pair_def
  simple_escape_def hex4_def JSON_PARSE_DEFAULT_def JSON_PARSE_ALLOW_TRAILING_def bytes_of_def
  Let_def

lemmas fuel_numeral =
  parse_value.simps(2) [of _ "pred_numeral k" for k, folded numeral_eq_Suc]
  parse_array.simps(2) [of _ "pred_numeral k" for k, folded numeral_eq_Suc]
  parse_array_loop.simps(2) [of _ "pred_numeral k" for k, folded numeral_eq_Suc]
  parse_object.simps(2) [of _ "pred_numeral k" for k, folded numeral_eq_Suc]
  parse_object_loop.simps(2) [of _ "pred_numeral k" for k, folded numeral_eq_Suc]

lemmas query_defs = json_get_type_def json_get_bool_def json_get_int_def json_get_uint_def
  json_get_num_def json_get_str_def json_get_str_len_def json_obj_getn_def json_obj_get_def
  json_obj_has_def json_obj_size_def json_obj_first_def json_obj_key_def json_obj_key_len_def
  json_arr_get_def json_arr_size_def json_arr_first_def head_ptr_def json_doc_root_def

lemmas case_congs = presult.case_cong_weak prod.case_cong_weak bool.case_cong_weak
  option.case_cong_weak sum.case_cong_weak list.case_cong_weak

section \<open>Integers and the 60-bit payload\<close>

text \<open>
  C1. The claim: an integer literal is stored as \<open>Int\<close> only when its value fits the
  signed 60-bit range, and a literal outside \<open>[-2^59, 2^59 - 1]\<close> is stored as \<open>Float\<close>,
  never as a truncated \<open>Int\<close>. The code stores every literal that \<open>strtoll\<close> accepts as
  \<open>Int\<close> and masks it to 60 bits: the literal \<open>576460752303423488\<close>, which is \<open>2^59\<close>,
  becomes an \<open>Int\<close> node that \<open>json_get_int\<close> reads as \<open>-2^59\<close>.
\<close>

theorem int_literal_2_pow_59_stored_as_int:
  assumes "alloc_ok h 72" and "alloc_ok h 65536" and "alloc_ok h 16384"
  shows "token_value (bytes_of ''576460752303423488'') = 2 ^ 59 \<and>
         (\<exists>d e b. parse_json h g e0 (bytes_of ''576460752303423488'') 18 None = Some (Some d, e, b) \<and>
            json_get_type (root d) = JSON_INT \<and>
            sint (json_get_int h (root d)) = - (2 ^ 59))"
  using assms
  by (simp add: fuel_numeral loop_simps parse_defs arena_defs node_defs tag_defs query_defs
      cong: case_congs)

theorem int_literal_2_pow_59_stored_as_int_witness:
  "alloc_ok plain_host 72 \<and> alloc_ok plain_host 65536 \<and> alloc_ok plain_host 16384 \<and>
   (\<exists>d e b. parse_json plain_host 0 no_error
               (bytes_of ''576460752303423488'') 18 None = Some (Some d, e, b) \<and>
      json_get_type (root d) = JSON_INT \<and>
      sint (json_get_int plain_host (root d)) = - 576460752303423488)"
  using int_literal_2_pow_59_stored_as_int [of plain_host 0 no_error]
  by (simp add: plain_host_def)

text \<open>
  \<open>strtoll\<close> is not told where the scan ended: of the buffer \<open>12345\<close> with \<open>len = 2\<close> the
  scan passes two bytes and the node holds 12345.
\<close>

lemma number_read_past_len:
  "\<exists>d e b. parse_json plain_host 0 no_error (bytes_of ''12345'') 2 None = Some (Some d, e, b) \<and>
     json_get_type (root d) = JSON_INT \<and> json_get_int plain_host (root d) = 12345"
  by (simp add: plain_host_def fuel_numeral loop_simps parse_defs arena_defs node_defs tag_defs
      query_defs cong: case_congs)

text \<open>
  Two documents live in two blocks: the roots of two parses of the same text are two
  pointers.
\<close>

lemma roots_of_two_documents_differ:
  "\<exists>d1 d2 e1 e2 b1 b2.
     parse_json plain_host 0 no_error (bytes_of ''1'') 1 None = Some (Some d1, e1, b1) \<and>
     parse_json (plain_host\<lparr> first_block := 1 \<rparr>) 0 no_error (bytes_of ''1'') 1 None
       = Some (Some d2, e2, b2) \<and>
     \<not> ptr_eq (root d1) (root d2) \<and> json_equals plain_host (root d1) (root d2)"
  by (simp add: plain_host_def fuel_numeral loop_simps parse_defs arena_defs node_defs tag_defs
      query_defs cong: case_congs)

section \<open>The query functions\<close>

lemma arr_get_loop_out_of_bounds: "length cs \<le> i \<Longrightarrow> arr_get_loop cs i = None"
  by (induction cs i rule: arr_get_loop.induct) auto

lemma obj_getn_loop_missing:
  "\<forall>c \<in> set cs. json_get_str_len (Some c) \<noteq> n \<or>
       cptr_read h (json_get_str (Some c)) n \<noteq> take n k
   \<Longrightarrow> obj_getn_loop h cs k n = None"
  by (induction cs) auto

text \<open>
  The defaults of the query functions: for \<open>NULL\<close> and for a node whose tag is not the one
  the function reads, \<open>json_get_bool\<close> is false, \<open>json_get_int\<close>, \<open>json_get_uint\<close> and
  \<open>json_get_num\<close> are zero (a mismatch for them is a node that is neither \<open>Int\<close> nor
  \<open>Float\<close>), \<open>json_get_str\<close> is \<open>NULL\<close> and the string length is 0, \<open>json_obj_get\<close> is
  \<open>NULL\<close> for a node that is not an object, \<open>json_arr_get\<close> is \<open>NULL\<close> for a node that is
  not an array and for an index from the size on, and the sizes are 0.
\<close>

lemma accessor_defaults:
  "json_get_bool None = False \<and> json_get_int h None = 0 \<and> json_get_uint h None = 0 \<and>
   json_get_num h None = 0 \<and> json_get_str None = Null_ptr \<and> json_get_str_len None = 0 \<and>
   json_obj_get h None key = None \<and> json_obj_get h obj None = None \<and>
   json_arr_get None i = None \<and>
   json_obj_size None = 0 \<and> json_arr_size None = 0 \<and>
   (val_get_type v \<noteq> JSON_TRUE \<longrightarrow> json_get_bool (Some v) = False) \<and>
   (val_get_type v \<noteq> JSON_INT \<and> val_get_type v \<noteq> JSON_FLOAT \<longrightarrow>
      json_get_int h (Some v) = 0 \<and> json_get_uint h (Some v) = 0 \<and> json_get_num h (Some v) = 0) \<and>
   (val_get_type v \<noteq> JSON_STRING_SHORT \<and> val_get_type v \<noteq> JSON_STRING_LONG \<longrightarrow>
      json_get_str (Some v) = Null_ptr \<and> json_get_str_len (Some v) = 0) \<and>
   (val_get_type v \<noteq> JSON_OBJECT \<longrightarrow>
      json_obj_get h (Some v) key = None \<and> json_obj_size (Some v) = 0) \<and>
   (val_get_type v \<noteq> JSON_ARRAY \<longrightarrow>
      json_arr_get (Some v) i = None \<and> json_arr_size (Some v) = 0) \<and>
   (json_arr_size (Some v) \<le> i \<longrightarrow> json_arr_get (Some v) i = None)"
proof -
  have a: "json_arr_size (Some v) \<le> i \<Longrightarrow> json_arr_get (Some v) i = None"
    by (auto simp: json_arr_size_def json_arr_get_def arr_get_loop_out_of_bounds)
  show ?thesis
    using a
    by (cases key) (auto simp: query_defs)
qed

definition sample_array :: json_val where
  "sample_array = Val (Addr 0 0) 8 (Child [Val (Addr 0 24) 20 (Child [])])"

text \<open>
  A host that grants every request and in which the first eight bytes at the address of a
  node are its word \<open>tag_payload\<close>, the first member of \<open>struct json_val\<close>, in little-endian
  order.
\<close>

definition layout_host :: host where
  "layout_host =
     plain_host\<lparr> node_bytes := (\<lambda>v n. map (byte_of_word (tag_payload v)) [0..<min n 8]) \<rparr>"

text \<open>The object whose only key is a tab, written with an escape.\<close>

definition tab_key_object :: "byte list" where
  "tab_key_object =
     [0x7B, DQUOTE, BSLASH, 0x74, DQUOTE, 0x3A, DQUOTE, 0x61, 0x62, DQUOTE, 0x7D]"

text \<open>
  C8. The claim: the query functions never fail and return their defaults, among them
  \<open>NULL\<close> from \<open>json_obj_get\<close> for a key the object does not have. The defaults for \<open>NULL\<close>
  and for a node of another type hold (\<open>accessor_defaults\<close>); the lookup of a missing key
  does not. The key of \<open>tab_key_object\<close>, an object with the one member \<open>"ab"\<close> under
  a key written as the escape for a tab, has an escape, so it is a long string of length
  1, and \<open>parse_object\<close> stores the pointer to the value in the word that held its
  \<open>str_ptr\<close>. \<open>json_obj_getn\<close> then compares the name it is given with the memory of the
  value node, whose first byte is the low byte of \<open>tag_payload\<close>: \<open>0x26\<close> for a short
  string of length 2, the character \<open>&\<close>. So \<open>json_obj_get (root, "&")\<close> returns the node of
  \<open>"ab"\<close> although the object has no key \<open>&\<close>, and the key that it has, the tab, is not
  found.
\<close>

theorem lookup_of_absent_key_returns_member:
  "string_decode tab_key_object 2 4 [] = [0x09] \<and>
   (\<exists>d e b key v.
      parse_json layout_host 0 no_error tab_key_object 11 None = Some (Some d, e, b) \<and>
      json_obj_size (root d) = 1 \<and>
      json_obj_first (root d) = [key] \<and> child key = [v] \<and>
      json_obj_key_len (Some key) = 1 \<and>
      json_get_type (Some v) = JSON_STRING \<and>
      cptr_read layout_host (json_get_str (Some v)) (json_get_str_len (Some v)) = bytes_of ''ab'' \<and>
      json_obj_get layout_host (root d) (Some (bytes_of ''&'')) = Some v \<and>
      json_obj_has layout_host (root d) (Some (bytes_of ''&'')) \<and>
      json_obj_get layout_host (root d) (Some [0x09]) = None)"
proof -
  have u: "[0..<2] = [0, Suc 0]"
    by (simp add: upt_rec)
  show ?thesis
    by (simp add: tab_key_object_def layout_host_def plain_host_def fuel_numeral loop_simps
        parse_defs arena_defs node_defs tag_defs query_defs u cong: case_congs)
qed

text \<open>
  C9. \<open>json_equals\<close> compares the two pointers first: it is true of a pointer and itself,
  \<open>NULL\<close> included, and false when exactly one of the two is \<open>NULL\<close>.
\<close>

theorem json_equals_null_edge:
  "json_equals h v v \<and> json_equals h None None \<and>
   \<not> json_equals h None (Some w) \<and> \<not> json_equals h (Some w) None"
  by (cases v) simp_all

theorem json_equals_null_edge_witness:
  "json_equals plain_host (Some sample_array) (Some sample_array) \<and>
   json_equals plain_host None None \<and>
   \<not> json_equals plain_host None (Some sample_array) \<and>
   \<not> json_equals plain_host (Some sample_array) None"
  using json_equals_null_edge [of plain_host "Some sample_array" sample_array]
  by simp


section \<open>Strings\<close>

lemma unicode_loop_4: 
  "unicode_loop inp p 0 0 =
     (let d0 = hex_digit (inp ! p); d1 = hex_digit (inp ! (p + 1));
          d2 = hex_digit (inp ! (p + 2)); d3 = hex_digit (inp ! (p + 3))
      in if d0 < 0 \<or> d1 < 0 \<or> d2 < 0 \<or> d3 < 0 then None
         else Some (push_bit 4 (push_bit 4 (push_bit 4 (push_bit 4 0 OR word_of_int d0)
                      OR word_of_int d1) OR word_of_int d2) OR word_of_int d3))"
  by (simp add: unicode_loop.simps [of _ _ 0] unicode_loop.simps [of _ _ "Suc 0"]
      unicode_loop.simps [of _ _ "Suc (Suc 0)"] unicode_loop.simps [of _ _ "Suc (Suc (Suc 0))"]
      unicode_loop.simps [of _ _ "Suc (Suc (Suc (Suc 0)))"] Let_def numeral_3_eq_3)

lemma unicode_loop_hex4: "unicode_loop inp p 0 0 = Some cp \<Longrightarrow> hex4 inp p = cp"
  by (auto simp: unicode_loop_4 hex4_def Let_def split: if_splits)

lemma surrogate_pair_unat:
  assumes "0xD800 \<le> hi" "hi \<le> 0xDBFF" "0xDC00 \<le> lo" "lo \<le> 0xDFFF"
  shows "unat (surrogate_pair hi lo) = 65536 + (unat hi - 55296) * 1024 + (unat lo - 56320)"
proof -
  define a where "a = hi - 0xD800"
  define c where "c = lo - 0xDC00"
  define m where "m = a * 1024"
  define s where "s = 0x10000 + m"
  have b: "55296 \<le> unat hi" "unat hi \<le> 56319" "56320 \<le> unat lo" "unat lo \<le> 57343"
    using assms by (simp_all add: word_le_nat_alt)
  have 1: "unat a = unat hi - 55296"
    unfolding a_def using assms(1) by (simp add: unat_sub)
  have 2: "unat c = unat lo - 56320"
    unfolding c_def using assms(3) by (simp add: unat_sub)
  have 3: "unat m = (unat hi - 55296) * 1024"
  proof -
    have "unat a * unat (1024 :: u32) < 2 ^ LENGTH(32)" using 1 b by simp
    from unat_mult_lem [THEN iffD1, OF this]
    have "unat (a * 1024) = unat a * unat (1024 :: u32)" .
    then show ?thesis unfolding m_def using 1 by simp
  qed
  have 4: "unat s = 65536 + (unat hi - 55296) * 1024"
  proof -
    have "unat (0x10000 :: u32) + unat m < 2 ^ LENGTH(32)" using 3 b by simp
    from unat_add_lem [THEN iffD1, OF this]
    have "unat (0x10000 + m) = unat (0x10000 :: u32) + unat m" .
    then show ?thesis unfolding s_def using 3 by simp
  qed
  have 5: "unat (s + c) = 65536 + (unat hi - 55296) * 1024 + (unat lo - 56320)"
  proof -
    have "unat s + unat c < 2 ^ LENGTH(32)" using 4 2 b by simp
    from unat_add_lem [THEN iffD1, OF this]
    have "unat (s + c) = unat s + unat c" .
    then show ?thesis using 4 2 by simp
  qed
  then show ?thesis
    by (simp add: surrogate_pair_def push_bit_eq_mult s_def m_def a_def c_def)
qed

lemma surrogate_pair_range:
  assumes "0xD800 \<le> hi" "hi \<le> 0xDBFF" "0xDC00 \<le> lo" "lo \<le> 0xDFFF"
  shows "0x10000 \<le> surrogate_pair hi lo \<and> surrogate_pair hi lo \<le> 0x10FFFF"
proof -
  have b: "55296 \<le> unat hi" "unat hi \<le> 56319" "56320 \<le> unat lo" "unat lo \<le> 57343"
    using assms by (simp_all add: word_le_nat_alt)
  show ?thesis
    using b by (simp add: word_le_nat_alt surrogate_pair_unat [OF assms])
qed

lemma encode_utf8_surrogate_pair:
  assumes "0xD800 \<le> hi" "hi \<le> 0xDBFF" "0xDC00 \<le> lo" "lo \<le> 0xDFFF"
  shows "encode_utf8 (surrogate_pair hi lo) =
     (let cp = surrogate_pair hi lo
      in [ucast (0xF0 OR drop_bit 18 cp), ucast (0x80 OR (drop_bit 12 cp AND 0x3F)),
          ucast (0x80 OR (drop_bit 6 cp AND 0x3F)), ucast (0x80 OR (cp AND 0x3F))])"
proof -
  have u: "unat (surrogate_pair hi lo) =
             65536 + (unat hi - 55296) * 1024 + (unat lo - 56320)"
    by (rule surrogate_pair_unat [OF assms])
  have "\<not> surrogate_pair hi lo < 0x80" "\<not> surrogate_pair hi lo < 0x800"
       "\<not> surrogate_pair hi lo < 0x10000"
    by (simp_all add: word_less_nat_alt u)
  moreover have "surrogate_pair hi lo \<le> 0x10FFFF"
    using surrogate_pair_range [OF assms] by simp
  ultimately show ?thesis by (simp add: encode_utf8_def Let_def)
qed

lemma measure_surrogate_ok:
  assumes "pos ctx + 12 \<le> len ctx"
    and "input ctx ! pos ctx = BSLASH" and "input ctx ! (pos ctx + 1) = 0x75"
    and "unicode_loop (input ctx) (pos ctx + 2) 0 0 = Some hi"
    and "0xD800 \<le> hi" and "hi \<le> 0xDBFF"
    and "input ctx ! (pos ctx + 6) = BSLASH" and "input ctx ! (pos ctx + 7) = 0x75"
    and "unicode_loop (input ctx) (pos ctx + 8) 0 0 = Some lo"
    and "0xDC00 \<le> lo" and "lo \<le> 0xDFFF"
  shows "string_measure ctx slen esc = string_measure (advance 12 ctx) (slen + 4) True"
proof -
  have l: "length (encode_utf8 (surrogate_pair hi lo)) = 4"
    using encode_utf8_surrogate_pair [of hi lo] assms by (simp add: Let_def)
  have lo': "\<not> lo < 0xDC00" "\<not> 0xDFFF < lo"
    using assms by (simp_all add: word_less_nat_alt word_le_nat_alt)
  have a: "input ctx ! (6 + pos ctx) = BSLASH" "input ctx ! (7 + pos ctx) = 0x75"
    "unicode_loop (input ctx) (8 + pos ctx) 0 0 = Some lo"
    using assms by (simp_all add: add.commute)
  show ?thesis
    apply (subst string_measure.simps)
    using assms(1-6) a lo' l
    apply (simp add: advance_def parse_unicode_escape_def simple_escape_def Let_def)
    apply (simp add: add.commute)
    done
qed

lemma measure_surrogate_fail:
  assumes "pos ctx + 6 \<le> len ctx"
    and "input ctx ! pos ctx = BSLASH" and "input ctx ! (pos ctx + 1) = 0x75"
    and "unicode_loop (input ctx) (pos ctx + 2) 0 0 = Some hi"
    and "0xD800 \<le> hi" and "hi \<le> 0xDBFF"
    and "\<not> (pos ctx + 12 \<le> len ctx \<and> input ctx ! (pos ctx + 6) = BSLASH \<and>
            input ctx ! (pos ctx + 7) = 0x75 \<and>
            (\<exists>lo. unicode_loop (input ctx) (pos ctx + 8) 0 0 = Some lo \<and>
                  0xDC00 \<le> lo \<and> lo \<le> 0xDFFF))"
  shows "\<exists>e ctx'. string_measure ctx slen esc = (Inl e, ctx') \<and> code e = JSON_ERROR_STRING"
proof -
  have a: "\<not> (12 + pos ctx \<le> len ctx \<and> input ctx ! (6 + pos ctx) = BSLASH \<and>
            input ctx ! (7 + pos ctx) = 0x75 \<and>
            (\<exists>lo. unicode_loop (input ctx) (8 + pos ctx) 0 0 = Some lo \<and>
                  \<not> lo < 0xDC00 \<and> \<not> 0xDFFF < lo))"
    using assms(7) by (simp add: add.commute not_less)
  show ?thesis
    apply (subst string_measure.simps)
    using assms(1-6) a
    apply (simp add: advance_def parse_unicode_escape_def simple_escape_def Let_def
        set_error_def split: option.splits)
    done
qed

lemma decode_surrogate:
  assumes "p < src_end"
    and "inp ! p = BSLASH" and "inp ! (p + 1) = 0x75"
    and "unicode_loop inp (p + 2) 0 0 = Some hi"
    and "0xD800 \<le> hi" and "hi \<le> 0xDBFF"
    and "unicode_loop inp (p + 8) 0 0 = Some lo"
  shows "string_decode inp p src_end out =
         string_decode inp (p + 12) src_end (out @ encode_utf8 (surrogate_pair hi lo))"
proof -
  have h: "hex4 inp (Suc (Suc p)) = hi" "hex4 inp (Suc (Suc (p + 6))) = lo"
    using unicode_loop_hex4 [OF assms(4)] unicode_loop_hex4 [OF assms(7)]
    by (simp_all add: numeral_eq_Suc)
  show ?thesis
    apply (subst string_decode.simps)
    using assms(1-3,5,6) h
    apply (simp add: Let_def)
    apply (simp add: add.commute)
    done
qed



lemma advance_simps [simp]:
  "input (advance n ctx) = input ctx" "len (advance n ctx) = len ctx"
  "pos (advance n ctx) = pos ctx + n" "col (advance n ctx) = col ctx + n"
  "line (advance n ctx) = line ctx" "doc (advance n ctx) = doc ctx"
  "flags (advance n ctx) = flags ctx" "max_depth (advance n ctx) = max_depth ctx"
  "depth (advance n ctx) = depth ctx"
  by (simp_all add: advance_def)

lemma advance_advance: "advance m (advance n ctx) = advance (n + m) ctx"
  by (simp add: advance_def add.assoc)

lemma parse_unicode_escape_cases:
  "parse_unicode_escape ctx = (r, cx) \<Longrightarrow>
     (r = None \<and> cx = ctx) \<or>
     (\<exists>cp. r = Some cp \<and> cx = advance 4 ctx \<and> pos ctx + 4 \<le> len ctx \<and>
           unicode_loop (input ctx) (pos ctx) 0 0 = Some cp)"
  by (auto simp: parse_unicode_escape_def split: if_splits option.splits)

lemma step_plain:
  "p < e \<Longrightarrow> inp ! p \<noteq> BSLASH \<Longrightarrow>
   string_decode inp p e out = string_decode inp (p + 1) e (out @ [inp ! p])"
  by (subst string_decode.simps) (simp add: Let_def)

lemma step_simple:
  "p < e \<Longrightarrow> inp ! p = BSLASH \<Longrightarrow> simple_escape (inp ! (p + 1)) \<Longrightarrow>
   \<exists>bs. length bs = 1 \<and>
     string_decode inp p e out = string_decode inp (p + 2) e (out @ bs)"
  by (subst string_decode.simps) (auto simp: Let_def simple_escape_def intro: exI [of _ "[b]" for b])

lemma step_single:
  assumes "p < e" and "inp ! p = BSLASH" and "inp ! (p + 1) = 0x75"
    and "unicode_loop inp (p + 2) 0 0 = Some cp" and "\<not> (0xD800 \<le> cp \<and> cp \<le> 0xDBFF)"
  shows "string_decode inp p e out = string_decode inp (p + 6) e (out @ encode_utf8 cp)"
proof -
  have h: "hex4 inp (Suc (Suc p)) = cp"
    using unicode_loop_hex4 [OF assms(4)] by simp
  show ?thesis
    apply (subst string_decode.simps)
    using assms(1-3,5) h
    apply (simp add: Let_def)
    apply (auto simp: add.commute)
    done
qed

lemma measure_post_base: "measure_post ctx s e (Inr (s, e)) ctx"
  by (simp add: measure_post_def string_decode.simps [of _ "pos ctx" "pos ctx"])

lemma measure_post_error:
  "c = ctx\<lparr> pos := pos c, col := col c \<rparr> \<Longrightarrow> pos ctx \<le> pos c \<Longrightarrow>
   measure_post ctx slen esc (Inl e) c"
  by (simp add: measure_post_def)

lemma measure_post_step:
  assumes ih: "measure_post (advance j ctx) (slen + k) e1 r cx"
    and j: "0 < j"
    and dec: "\<And>out e. pos ctx < e \<Longrightarrow>
               \<exists>bs. length bs = k \<and>
                 string_decode (input ctx) (pos ctx) e out =
                 string_decode (input ctx) (pos ctx + j) e (out @ bs)"
    and e1: "esc \<longrightarrow> e1" and kj: "\<not> e1 \<longrightarrow> k = j"
  shows "measure_post ctx slen esc r cx"
proof -
  from ih have fr: "cx = (advance j ctx)\<lparr> pos := pos cx, col := col cx \<rparr>"
    and le: "pos ctx + j \<le> pos cx"
    by (simp_all add: measure_post_def)
  from fr have fr': "cx = ctx\<lparr> pos := pos cx, col := col cx \<rparr>"
    by (simp add: advance_def)
  from le j have lt: "pos ctx < pos cx" by simp
  have r: "slen \<le> slen' \<and> (esc \<longrightarrow> esc') \<and>
         (\<forall>out. length (string_decode (input ctx) (pos ctx) (pos cx) out) =
                 length out + (slen' - slen)) \<and>
         (\<not> esc' \<longrightarrow> slen' - slen = pos cx - pos ctx)"
    if res: "r = Inr (slen', esc')" for slen' esc'
  proof -
    from ih res have a: "slen + k \<le> slen'" and b: "e1 \<longrightarrow> esc'"
      and c: "\<And>out. length (string_decode (input ctx) (pos ctx + j) (pos cx) out) =
                 length out + (slen' - (slen + k))"
      and d: "\<not> esc' \<longrightarrow> slen' - (slen + k) = pos cx - (pos ctx + j)"
      by (simp_all add: measure_post_def)
    have "length (string_decode (input ctx) (pos ctx) (pos cx) out) =
                 length out + (slen' - slen)" for out
    proof -
      from dec [OF lt, of out] obtain bs where bs: "length bs = k"
        "string_decode (input ctx) (pos ctx) (pos cx) out =
         string_decode (input ctx) (pos ctx + j) (pos cx) (out @ bs)" by blast
      show ?thesis using c [of "out @ bs"] bs a by simp
    qed
    moreover have "\<not> esc' \<longrightarrow> slen' - slen = pos cx - pos ctx"
      using d b kj a le by auto
    ultimately show ?thesis using a b e1 by auto
  qed
  show ?thesis
    unfolding measure_post_def using fr' lt r by auto
qed

lemma string_measure_post:
  "string_measure ctx slen esc = (r, cx) \<Longrightarrow> measure_post ctx slen esc r cx"
proof (induction ctx slen esc arbitrary: r cx rule: string_measure.induct)
  case (1 ctx slen esc)
  show ?case
  proof (cases "pos ctx < len ctx")
    case False
    then have "string_measure ctx slen esc = (Inr (slen, esc), ctx)"
      by (subst string_measure.simps) simp
    with "1.prems" measure_post_base show ?thesis by auto
  next
    case lt: True
    show ?thesis
    proof (cases "input ctx ! pos ctx = DQUOTE")
      case True
      with lt have "string_measure ctx slen esc = (Inr (slen, esc), ctx)"
        by (subst string_measure.simps) simp
      with "1.prems" measure_post_base show ?thesis by auto
    next
      case nq: False
      show ?thesis
      proof (cases "input ctx ! pos ctx = BSLASH")
        case nb: False
        show ?thesis
        proof (cases "input ctx ! pos ctx < 0x20")
          case True
          with lt nq nb have "string_measure ctx slen esc =
              (Inl (set_error JSON_ERROR_STRING (pos ctx) (line ctx) (col ctx)), ctx)"
            by (subst string_measure.simps) simp
          with "1.prems" show ?thesis by (auto intro: measure_post_error)
        next
          case False
          with lt nq nb have eq: "string_measure ctx slen esc =
              string_measure (advance 1 ctx) (slen + 1) esc"
            by (subst string_measure.simps) simp
          have ih: "measure_post (advance 1 ctx) (slen + 1) esc r cx"
            by (rule "1.IH"(4) [OF lt refl nq nb False trans [OF eq [symmetric] "1.prems"]])
          show ?thesis
          proof (rule measure_post_step [OF ih])
            fix out e assume "pos ctx < e"
            from step_plain [OF this nb]
            show "\<exists>bs. length bs = 1 \<and> string_decode (input ctx) (pos ctx) e out =
                     string_decode (input ctx) (pos ctx + 1) e (out @ bs)"
              by (intro exI [of _ "[input ctx ! pos ctx]"]) simp
          qed simp_all
        qed
      next
        case bs: True
        let ?c1 = "advance 1 ctx"
        show ?thesis
        proof (cases "len ?c1 \<le> pos ?c1")
          case True
          with lt nq bs have "string_measure ctx slen esc =
              (Inl (set_error JSON_ERROR_STRING (pos ?c1) (line ?c1) (col ?c1)), ?c1)"
            by (subst string_measure.simps) (simp add: Let_def)
          with "1.prems" show ?thesis
            by (auto intro!: measure_post_error simp: advance_def)
        next
          case in1: False
          show ?thesis
          proof (cases "simple_escape (input ?c1 ! pos ?c1)")
            case se: True
            with lt nq bs in1 have eq: "string_measure ctx slen esc =
                string_measure (advance 1 ?c1) (slen + 1) True"
              by (subst string_measure.simps) (simp add: Let_def)
            have ih0: "measure_post (advance 1 ?c1) (slen + 1) True r cx"
              by (rule "1.IH"(1) [OF lt refl nq bs refl in1 refl se
                    trans [OF eq [symmetric] "1.prems"]])
            have a2: "advance 1 ?c1 = advance 2 ctx" by (simp add: advance_def)
            have ih: "measure_post (advance 2 ctx) (slen + 1) True r cx"
              using ih0 unfolding a2 .
            show ?thesis
            proof (rule measure_post_step [OF ih])
              fix out e assume "pos ctx < e"
              from step_simple [OF this bs] se
              show "\<exists>bs. length bs = 1 \<and> string_decode (input ctx) (pos ctx) e out =
                     string_decode (input ctx) (pos ctx + 2) e (out @ bs)"
                by simp
            qed simp_all
          next
            case ns: False
            show ?thesis
            proof (cases "input ?c1 ! pos ?c1 = 0x75")
              case False
              with lt nq bs in1 ns have "string_measure ctx slen esc =
                  (Inl (set_error JSON_ERROR_STRING (pos ?c1) (line ?c1) (col ?c1)), ?c1)"
                by (subst string_measure.simps) (simp add: Let_def)
              with "1.prems" show ?thesis
                by (auto intro!: measure_post_error simp: advance_def)
            next
              case u: True
              let ?c2 = "advance 1 ?c1"
              obtain rp y where pu: "parse_unicode_escape ?c2 = (rp, y)"
                by (cases "parse_unicode_escape ?c2") auto
              from parse_unicode_escape_cases [OF pu]
              consider (none) "rp = None" "y = ?c2"
                | (some) cp where "rp = Some cp" "y = advance 4 ?c2" "pos ?c2 + 4 \<le> len ?c2"
                    "unicode_loop (input ?c2) (pos ?c2) 0 0 = Some cp"
                by blast
              then show ?thesis
              proof cases
                case none
                with lt nq bs in1 ns u pu have "string_measure ctx slen esc =
                    (Inl (set_error JSON_ERROR_STRING (pos ?c2) (line ?c2) (col ?c2)), ?c2)"
                  by (subst string_measure.simps) (simp add: Let_def)
                with "1.prems" show ?thesis
                  by (auto intro!: measure_post_error simp: advance_def)
              next
                case some
                have y6: "y = advance 6 ctx" using some(2) by (simp add: advance_def)
                have ul: "unicode_loop (input ctx) (pos ctx + 2) 0 0 = Some cp"
                  using some(4) by (simp add: add.assoc)
                have u1: "input ctx ! (pos ctx + 1) = 0x75" using u by simp
                show ?thesis
                proof (cases "0xD800 \<le> cp \<and> cp \<le> 0xDBFF")
                  case single: False
                  from lt nq bs in1 ns u pu some(1) have eq: "string_measure ctx slen esc =
                      string_measure y (slen + length (encode_utf8 cp)) True"
                    by (subst string_measure.simps) (simp add: Let_def single)
                  have ih0: "measure_post y (slen + length (encode_utf8 cp)) True r cx"
                    by (rule "1.IH"(3) [OF lt refl nq bs refl in1 refl ns u pu [symmetric]
                          some(1) single trans [OF eq [symmetric] "1.prems"]])
                  then have ih: "measure_post (advance 6 ctx) (slen + length (encode_utf8 cp))
                                   True r cx"
                    by (simp only: y6)
                  show ?thesis
                  proof (rule measure_post_step [OF ih])
                    fix out e assume "pos ctx < e"
                    from step_single [OF this bs u1 ul single]
                    show "\<exists>bs. length bs = length (encode_utf8 cp) \<and>
                           string_decode (input ctx) (pos ctx) e out =
                           string_decode (input ctx) (pos ctx + 6) e (out @ bs)"
                      by auto
                  qed simp_all
                next
                  case pair: True
                  let ?bad = "len y < pos y + 2 \<or> input y ! pos y \<noteq> BSLASH \<or>
                              input y ! (pos y + 1) \<noteq> 0x75"
                  show ?thesis
                  proof (cases ?bad)
                    case True
                    from lt nq bs in1 ns u pu some(1) True have "string_measure ctx slen esc =
                        (Inl (set_error JSON_ERROR_STRING (pos y) (line y) (col y)), y)"
                      by (subst string_measure.simps) (auto simp: Let_def pair)
                    with "1.prems" show ?thesis
                      by (auto intro!: measure_post_error simp: y6 advance_def)
                  next
                    case good: False
                    let ?c4 = "advance 2 y"
                    obtain rp2 ya where pu2: "parse_unicode_escape ?c4 = (rp2, ya)"
                      by (cases "parse_unicode_escape ?c4") auto
                    from parse_unicode_escape_cases [OF pu2]
                    consider (none2) "rp2 = None" "ya = ?c4"
                      | (some2) cp2 where "rp2 = Some cp2" "ya = advance 4 ?c4"
                          "pos ?c4 + 4 \<le> len ?c4"
                          "unicode_loop (input ?c4) (pos ?c4) 0 0 = Some cp2"
                      by blast
                    then show ?thesis
                    proof cases
                      case none2
                      from lt nq bs in1 ns u pu some(1) pu2 none2(1) good
                      have "string_measure ctx slen esc =
                          (Inl (set_error JSON_ERROR_STRING (pos ya) (line ya) (col ya)), ya)"
                        by (subst string_measure.simps) (auto simp: Let_def pair)
                      with "1.prems" show ?thesis
                        by (auto intro!: measure_post_error simp: none2 y6 advance_def)
                    next
                      case some2
                      have ya12: "ya = advance 12 ctx"
                        using some2(2) y6 by (simp add: advance_def)
                      show ?thesis
                      proof (cases "cp2 < 0xDC00 \<or> 0xDFFF < cp2")
                        case True
                        from lt nq bs in1 ns u pu some(1) pu2 some2(1) good
                        have "string_measure ctx slen esc =
                          (Inl (set_error JSON_ERROR_STRING (pos ya) (line ya) (col ya)), ya)"
                          by (subst string_measure.simps) (auto simp: Let_def pair True)
                        with "1.prems" show ?thesis
                          by (auto intro!: measure_post_error simp: ya12 advance_def)
                      next
                        case lo_ok: False
                        from lt nq bs in1 ns u pu some(1) pu2 some2(1) good
                        have eq: "string_measure ctx slen esc =
                          string_measure ya
                            (slen + length (encode_utf8 (surrogate_pair cp cp2))) True"
                          by (subst string_measure.simps) (auto simp: Let_def pair lo_ok)
                        have ih0: "measure_post ya
                            (slen + length (encode_utf8 (surrogate_pair cp cp2))) True r cx"
                          by (rule "1.IH"(2) [OF lt refl nq bs refl in1 refl ns u pu [symmetric]
                                some(1) pair good pu2 [symmetric] some2(1) lo_ok
                                trans [OF eq [symmetric] "1.prems"]])
                        then have ih: "measure_post (advance 12 ctx)
                            (slen + length (encode_utf8 (surrogate_pair cp cp2))) True r cx"
                          by (simp only: ya12)
                        have ul2: "unicode_loop (input ctx) (pos ctx + 8) 0 0 = Some cp2"
                          using some2(4) y6 by (simp add: add.commute)
                        show ?thesis
                        proof (rule measure_post_step [OF ih])
                          fix out e assume "pos ctx < e"
                          from decode_surrogate [OF this bs u1 ul _ _ ul2, of out] pair
                          show "\<exists>bs. length bs = length (encode_utf8 (surrogate_pair cp cp2)) \<and>
                                 string_decode (input ctx) (pos ctx) e out =
                                 string_decode (input ctx) (pos ctx + 12) e (out @ bs)"
                            by auto
                        qed simp_all
                      qed
                    qed
                  qed
                qed
              qed
            qed
          qed
        qed
      qed
    qed
  qed
qed

lemma mask_consts:
  "(0xFF :: u64) = mask 8" "(0x0F :: u64) = mask 4" "(0x07 :: u64) = mask 3"
  "(0x0F :: byte) = mask 4" "(0x07 :: byte) = mask 3"
  by (simp_all add: mask_eq_exp_minus_1)

lemma bit_byte_of_word:
  "bit (byte_of_word w i) n \<longleftrightarrow> n < 8 \<and> bit w (8 * i + n)"
  by (auto simp: byte_of_word_def bit_simps)

lemma bit_store_byte:
  "bit (store_byte w i b) m \<longleftrightarrow>
     (if 8 * i \<le> m \<and> m < 8 * i + 8 then m < 64 \<and> bit b (m - 8 * i) else bit w m)"
  by (auto simp: store_byte_def mask_consts bit_simps dest: bit_imp_le_length)

lemma byte_of_store_byte_same: "i < 8 \<Longrightarrow> byte_of_word (store_byte w i b) i = b"
  by (rule bit_word_eqI) (auto simp: bit_byte_of_word bit_store_byte)

lemma byte_of_store_byte_other: "i \<noteq> j \<Longrightarrow> byte_of_word (store_byte w i b) j = byte_of_word w j"
  by (rule bit_word_eqI) (auto simp: bit_byte_of_word bit_store_byte)

lemma byte_of_store_bytes:
  "i + length bs \<le> 8 \<Longrightarrow>
   byte_of_word (store_bytes w i bs) j =
     (if i \<le> j \<and> j < i + length bs then bs ! (j - i) else byte_of_word w j)"
proof (induction bs arbitrary: w i)
  case Nil
  then show ?case by auto
next
  case (Cons b bs)
  then show ?case
    by (auto simp: byte_of_store_byte_same byte_of_store_byte_other nth_Cons' )
qed

lemma low_byte_views:
  "w AND 0x0F = ucast (byte_of_word w 0 AND 0x0F)"
  "drop_bit 4 w AND 0x07 = ucast (drop_bit 4 (byte_of_word w 0) AND 0x07)"
  unfolding mask_consts
  by (rule bit_word_eqI; auto simp: bit_simps byte_of_word_def)+


lemma short_header:
  assumes "n \<le> 7"
  shows "ucast (byte_of_word (6 OR push_bit 4 (of_nat n)) 0 AND 0x0F) = (6 :: u64)"
    and "unat (ucast (drop_bit 4 (byte_of_word (6 OR push_bit 4 (of_nat n)) 0) AND 0x07) :: u64) = n"
proof -
  from assms have "n \<in> {0, 1, 2, 3, 4, 5, 6, 7}"
    by auto
  then show "ucast (byte_of_word (6 OR push_bit 4 (of_nat n)) 0 AND 0x0F) = (6 :: u64)"
    and "unat (ucast (drop_bit 4 (byte_of_word (6 OR push_bit 4 (of_nat n)) 0) AND 0x07) :: u64) = n"
    by (auto simp: byte_of_word_def)
qed

lemma short_string_word:
  assumes "length bs \<le> 7"
  defines "w \<equiv> store_bytes (6 OR push_bit 4 (of_nat (length bs))) 1 bs"
  shows "w AND 0x0F = 6" and "unat (drop_bit 4 w AND 0x07) = length bs"
    and "map (\<lambda>i. byte_of_word w (Suc i)) [0..<length bs] = bs"
proof -
  have b0: "byte_of_word w 0 = byte_of_word (6 OR push_bit 4 (of_nat (length bs))) 0"
    unfolding w_def using assms(1) by (simp add: byte_of_store_bytes)
  show "w AND 0x0F = 6"
    by (subst low_byte_views(1)) (simp only: b0 short_header(1) [OF assms(1)])
  show "unat (drop_bit 4 w AND 0x07) = length bs"
    by (subst low_byte_views(2)) (simp only: b0 short_header(2) [OF assms(1)])
  show "map (\<lambda>i. byte_of_word w (Suc i)) [0..<length bs] = bs"
    unfolding w_def using assms(1)
    by (intro nth_equalityI) (simp_all add: byte_of_store_bytes)
qed

lemma long_string_word:
  "(7 OR push_bit 4 x) AND 0x0F = (7 :: u64)"
  "drop_bit 4 (7 OR push_bit 4 x) = take_bit 60 (x :: u64)"
  "drop_bit 4 (push_bit 4 x) = take_bit 60 (x :: u64)"
  unfolding mask_consts
  by (rule bit_word_eqI; auto simp: bit_simps)+


lemma ctx_alloc_val_cases:
  "ctx_alloc_val h ctx = (r, cx) \<Longrightarrow>
     (\<exists>a. r = Ok (Val a 0 (Child [])) \<and> a = Addr (arena (doc cx)) (arena_used (doc cx) - 24)) \<or>
     r = No_mem \<or> r = No_return"
  by (auto simp: ctx_alloc_val_def arena_alloc_val_def bump_val_def arena_grow_def Let_def
      SIZEOF_JSON_VAL_def split: option.splits if_splits prod.splits bool.splits)

lemma parse_string_layout:
  assumes ok: "parse_string h ctx = (Ok val, cx)" and inb: "len ctx \<le> length (input ctx)"
  shows "\<exists>slen esc c2.
     string_measure (advance 1 ctx) 0 False = (Inr (slen, esc), c2) \<and>
     (val_get_type val = JSON_STRING_SHORT \<longleftrightarrow> \<not> esc \<and> slen \<le> 7) \<and>
     (val_get_type val = JSON_STRING_LONG \<longleftrightarrow> esc \<or> 8 \<le> slen) \<and>
     (slen < 2 ^ 60 \<longrightarrow> json_get_str_len (Some val) = slen) \<and>
     (\<not> esc \<longrightarrow> slen = pos c2 - (pos ctx + 1) \<and>
        cptr_read h (json_get_str (Some val)) slen = take slen (drop (pos ctx + 1) (input ctx))) \<and>
     (esc \<longrightarrow> length (string_decode (input ctx) (pos ctx + 1) (pos c2) []) = slen \<and>
        cptr_read h (json_get_str (Some val)) slen =
          string_decode (input ctx) (pos ctx + 1) (pos c2) []) \<and>
     (\<not> esc \<and> slen \<le> 7 \<longrightarrow> json_get_str (Some val) = Inline_ptr (tag_payload val)) \<and>
     (esc \<or> 8 \<le> slen \<longrightarrow> (\<exists>bs. length bs = slen \<and> json_get_str (Some val) = Region_ptr (bs @ [0])))"
proof -
  from ok have q: "pos ctx < len ctx" "input ctx ! pos ctx = DQUOTE"
    by (auto simp: parse_string_def fail_at_def split: if_splits)
  obtain r c2 where sm: "string_measure (advance 1 ctx) 0 False = (r, c2)"
    by (cases "string_measure (advance 1 ctx) 0 False") auto
  from ok q sm obtain slen esc where r: "r = Inr (slen, esc)"
    by (cases r) (auto simp: parse_string_def Let_def)
  from string_measure_post [OF sm] r
  have fr: "c2 = (advance 1 ctx)\<lparr> pos := pos c2, col := col c2 \<rparr>"
    and le: "pos ctx + 1 \<le> pos c2"
    and dl: "length (string_decode (input ctx) (pos ctx + 1) (pos c2) []) = slen"
    and ne: "\<not> esc \<longrightarrow> slen = pos c2 - (pos ctx + 1)"
    by (simp_all add: measure_post_def)
  from fr have c2f: "input c2 = input ctx" "len c2 = len ctx"
    by (metis advance_simps(1) parser_ctx.select_convs(1) parser_ctx.surjective parser_ctx.update_convs(3,5),
        metis advance_simps(2) parser_ctx.select_convs(2) parser_ctx.surjective parser_ctx.update_convs(3,5))
  from ok q sm r have closed: "pos c2 < len c2"
    by (auto simp: parse_string_def Let_def fail_at_def split: if_splits)
  obtain ra c4 where al: "ctx_alloc_val h (advance 1 c2) = (ra, c4)"
    by (cases "ctx_alloc_val h (advance 1 c2)") auto
  from ok q sm r closed al obtain a where ra: "ra = Ok (Val a 0 (Child []))"
    using ctx_alloc_val_cases [OF al]
    by (auto simp: parse_string_def Let_def split: presult.splits)
  have c4i: "input c4 = input ctx"
    using al c2f by (auto simp: ctx_alloc_val_def split: option.splits prod.splits)
  let ?raw = "take slen (drop (pos ctx + 1) (input ctx))"
  have rawlen: "\<not> esc \<Longrightarrow> length ?raw = slen"
    using ne closed c2f inb le by auto
  show ?thesis
  proof (cases "\<not> esc \<and> slen \<le> 7")
    case short: True
    then have l7: "length ?raw \<le> 7" and ll: "length ?raw = slen" using rawlen by auto
    from ok q sm r closed al ra short
    have val: "val = Val a (store_bytes (6 OR push_bit 4 (of_nat slen)) 1 ?raw) (Child [])"
      by (simp add: parse_string_def Let_def node_defs tag_defs c4i)
    note sw = short_string_word [OF l7, unfolded ll]
    show ?thesis
      apply (rule exI [of _ slen], rule exI [of _ esc], rule exI [of _ c2])
      using short sw ne sm r
      by (simp add: val query_defs node_defs tag_defs)
  next
    case long: False
    obtain rs where as: "arena_alloc_string h (doc c4) slen = rs"
      by simp
    let ?str = "(if \<not> esc then ?raw @ [0]
                 else string_decode (input ctx) (pos ctx + 1) (pos c2) [] @ [0])"
    have p4: "pos c4 = pos c2 + 1"
      using al by (auto simp: ctx_alloc_val_def split: option.splits prod.splits)
    from ok q sm r closed al ra long p4
    have val: "val = Val a (7 OR push_bit 4 (of_nat slen)) (Str_ptr ?str)"
      by (auto simp: parse_string_def Let_def node_defs tag_defs c4i
          split: option.splits prod.splits bool.splits if_splits)
    have pl: "slen < 2 ^ 60 \<Longrightarrow> unat (take_bit 60 (of_nat slen :: u64)) = slen"
      by (simp add: unat_of_nat take_bit_nat_eq_self unsigned_take_bit_eq take_bit_of_nat)
    show ?thesis
      apply (rule exI [of _ slen], rule exI [of _ esc], rule exI [of _ c2])
      using long dl ne sm r rawlen pl
      by (auto simp: val query_defs node_defs tag_defs long_string_word)
  qed
qed

lemma string_measure_error_fails_parse:
  assumes "pos ctx < len ctx" and "input ctx ! pos ctx = DQUOTE"
    and "string_measure (advance 1 ctx) 0 False = (Inl e, ctx')"
  shows "parse_string h ctx = (Fail e, ctx')"
  using assms by (simp add: parse_string_def Let_def)

text \<open>
  At a backslash, \<open>u\<close> and four hexadecimal digits of a high surrogate: what one step
  of each pass does.
\<close>

lemma surrogate_escape_step:
  assumes "pos ctx + 6 \<le> len ctx"
    and "input ctx ! pos ctx = BSLASH" and "input ctx ! (pos ctx + 1) = 0x75"
    and "unicode_loop (input ctx) (pos ctx + 2) 0 0 = Some hi"
    and "0xD800 \<le> hi" and "hi \<le> 0xDBFF"
  shows "(\<forall>lo. pos ctx + 12 \<le> len ctx \<and> input ctx ! (pos ctx + 6) = BSLASH \<and>
               input ctx ! (pos ctx + 7) = 0x75 \<and>
               unicode_loop (input ctx) (pos ctx + 8) 0 0 = Some lo \<and>
               0xDC00 \<le> lo \<and> lo \<le> 0xDFFF \<longrightarrow>
             string_measure ctx slen esc = string_measure (advance 12 ctx) (slen + 4) True \<and>
             (pos ctx < src_end \<longrightarrow>
                string_decode (input ctx) (pos ctx) src_end out =
                string_decode (input ctx) (pos ctx + 12) src_end
                  (out @ encode_utf8 (surrogate_pair hi lo))) \<and>
             unat (surrogate_pair hi lo) =
               0x10000 + (unat hi - 0xD800) * 2 ^ 10 + (unat lo - 0xDC00) \<and>
             encode_utf8 (surrogate_pair hi lo) =
               [ucast (0xF0 OR drop_bit 18 (surrogate_pair hi lo)),
                ucast (0x80 OR (drop_bit 12 (surrogate_pair hi lo) AND 0x3F)),
                ucast (0x80 OR (drop_bit 6 (surrogate_pair hi lo) AND 0x3F)),
                ucast (0x80 OR (surrogate_pair hi lo AND 0x3F))]) \<and>
         (\<not> (\<exists>lo. pos ctx + 12 \<le> len ctx \<and> input ctx ! (pos ctx + 6) = BSLASH \<and>
                  input ctx ! (pos ctx + 7) = 0x75 \<and>
                  unicode_loop (input ctx) (pos ctx + 8) 0 0 = Some lo \<and>
                  0xDC00 \<le> lo \<and> lo \<le> 0xDFFF) \<longrightarrow>
            (\<exists>e ctx'. string_measure ctx slen esc = (Inl e, ctx') \<and>
                      code e = JSON_ERROR_STRING))"
proof (intro conjI allI impI)
  fix lo
  assume a: "pos ctx + 12 \<le> len ctx \<and> input ctx ! (pos ctx + 6) = BSLASH \<and>
               input ctx ! (pos ctx + 7) = 0x75 \<and>
               unicode_loop (input ctx) (pos ctx + 8) 0 0 = Some lo \<and>
               0xDC00 \<le> lo \<and> lo \<le> 0xDFFF"
  show "string_measure ctx slen esc = string_measure (advance 12 ctx) (slen + 4) True"
    using measure_surrogate_ok [of ctx hi lo slen esc] assms a by simp
  show "unat (surrogate_pair hi lo) =
          0x10000 + (unat hi - 0xD800) * 2 ^ 10 + (unat lo - 0xDC00)"
    using surrogate_pair_unat [of hi lo] assms a by simp
  show "encode_utf8 (surrogate_pair hi lo) =
               [ucast (0xF0 OR drop_bit 18 (surrogate_pair hi lo)),
                ucast (0x80 OR (drop_bit 12 (surrogate_pair hi lo) AND 0x3F)),
                ucast (0x80 OR (drop_bit 6 (surrogate_pair hi lo) AND 0x3F)),
                ucast (0x80 OR (surrogate_pair hi lo AND 0x3F))]"
    using encode_utf8_surrogate_pair [of hi lo] assms a by (simp add: Let_def)
  assume "pos ctx < src_end"
  then show "string_decode (input ctx) (pos ctx) src_end out =
                string_decode (input ctx) (pos ctx + 12) src_end
                  (out @ encode_utf8 (surrogate_pair hi lo))"
    using decode_surrogate [of "pos ctx" src_end "input ctx" hi lo out] assms a by simp
next
  assume "\<not> (\<exists>lo. pos ctx + 12 \<le> len ctx \<and> input ctx ! (pos ctx + 6) = BSLASH \<and>
                  input ctx ! (pos ctx + 7) = 0x75 \<and>
                  unicode_loop (input ctx) (pos ctx + 8) 0 0 = Some lo \<and>
                  0xDC00 \<le> lo \<and> lo \<le> 0xDFFF)"
  then show "\<exists>e ctx'. string_measure ctx slen esc = (Inl e, ctx') \<and>
                      code e = JSON_ERROR_STRING"
    using measure_surrogate_fail [of ctx hi slen esc] assms by simp
qed

lemma ctx_at_simps:
  "input (ctx_at bs p) = bs" "pos (ctx_at bs p) = p" "len (ctx_at bs p) = length bs"
  by (simp_all add: ctx_at_def)

text \<open>
  A byte that stands for itself between the quotes of a string: no quote, no backslash
  and no control character.
\<close>

definition plain :: "byte \<Rightarrow> bool" where
  "plain c \<longleftrightarrow> c \<noteq> DQUOTE \<and> c \<noteq> BSLASH \<and> \<not> c < 0x20"

lemma measure_plain_run:
  "(\<forall>i<n. plain (input ctx ! (pos ctx + i))) \<Longrightarrow> pos ctx + n \<le> len ctx \<Longrightarrow>
     string_measure ctx s e = string_measure (advance n ctx) (s + n) e"
proof (induction n arbitrary: ctx s)
  case 0
  show ?case by (simp add: advance_def)
next
  case (Suc n)
  from Suc.prems have lt: "pos ctx < len ctx" and pl: "plain (input ctx ! pos ctx)"
    by auto
  from lt pl have 1: "string_measure ctx s e = string_measure (advance 1 ctx) (s + 1) e"
    by (subst string_measure.simps) (simp add: plain_def)
  have "\<forall>i<n. plain (input (advance 1 ctx) ! (pos (advance 1 ctx) + i))"
  proof (intro allI impI)
    fix i assume "i < n"
    with Suc.prems(1) have "plain (input ctx ! (pos ctx + Suc i))" by blast
    then show "plain (input (advance 1 ctx) ! (pos (advance 1 ctx) + i))" by simp
  qed
  moreover from Suc.prems(2) have "pos (advance 1 ctx) + n \<le> len (advance 1 ctx)" by simp
  ultimately have "string_measure (advance 1 ctx) (s + 1) e =
      string_measure (advance n (advance 1 ctx)) (s + 1 + n) e"
    by (rule Suc.IH)
  with 1 show ?case by (simp add: advance_advance)
qed

lemma decode_plain_run:
  "(\<forall>i<n. plain (inp ! (p + i))) \<Longrightarrow> p + n \<le> e \<Longrightarrow>
     string_decode inp p e out = string_decode inp (p + n) e (out @ map (\<lambda>i. inp ! (p + i)) [0..<n])"
proof (induction n arbitrary: p out)
  case 0
  show ?case by simp
next
  case (Suc n)
  from Suc.prems have lt: "p < e" and pl: "plain (inp ! p)"
    by auto
  from pl have nb: "inp ! p \<noteq> BSLASH" by (simp add: plain_def)
  have "\<forall>i<n. plain (inp ! (p + 1 + i))"
  proof (intro allI impI)
    fix i assume "i < n"
    with Suc.prems(1) have "plain (inp ! (p + Suc i))" by blast
    then show "plain (inp ! (p + 1 + i))" by simp
  qed
  moreover from Suc.prems(2) have "p + 1 + n \<le> e" by simp
  ultimately have "string_decode inp (p + 1) e (out @ [inp ! p]) =
      string_decode inp (p + 1 + n) e ((out @ [inp ! p]) @ map (\<lambda>i. inp ! (p + 1 + i)) [0..<n])"
    by (rule Suc.IH)
  moreover have "map (\<lambda>i. inp ! (p + i)) [0..<Suc n] = inp ! p # map (\<lambda>i. inp ! (p + 1 + i)) [0..<n]"
    by (simp add: upt_conv_Cons map_Suc_upt [symmetric] del: upt_Suc)
  ultimately show ?case
    using step_plain [OF lt nb, of out] by simp
qed

lemma run_bytes:
  "p + n \<le> length inp \<Longrightarrow> map (\<lambda>i. inp ! (p + i)) [0..<n] = take n (drop p inp)"
  by (intro nth_equalityI) simp_all

lemma decode_end: "string_decode inp e e out = out"
  by (subst string_decode.simps) simp

lemma measure_at_quote:
  "pos ctx < len ctx \<Longrightarrow> input ctx ! pos ctx = DQUOTE \<Longrightarrow>
     string_measure ctx s e = (Inr (s, e), ctx)"
  by (subst string_measure.simps) simp


lemma alloc_with_room:
  assumes "arena_used (doc c) + 24 \<le> arena_size (doc c)"
  shows "ctx_alloc_val h c =
     (Ok (Val (Addr (arena (doc c)) (arena_used (doc c))) 0 (Child [])),
      c\<lparr> doc := (doc c)\<lparr> arena_used := arena_used (doc c) + 24,
                            value_count := value_count (doc c) + 1 \<rparr> \<rparr>)"
  using assms
  by (simp add: ctx_alloc_val_def arena_alloc_val_def bump_val_def SIZEOF_JSON_VAL_def Let_def)

lemma string_alloc_with_room:
  assumes "strings_used d + k + 1 \<le> strings_size d"
  shows "arena_alloc_string h d k = Some (True, d\<lparr> strings_used := strings_used d + (k + 1) \<rparr>)"
  using assms
  by (simp add: arena_alloc_string_def bump_string_def Let_def)

lemma measure_plain_run_at:
  assumes "pos c = r" "input c = inp" "\<forall>i<m. plain (inp ! (r + i))" "r + m \<le> len c"
  shows "string_measure c s e = string_measure (advance m c) (s + m) e"
  using assms by (intro measure_plain_run) simp_all

lemma surrogate_token_measure:
  assumes q: "pos ctx < len ctx" "input ctx ! pos ctx = DQUOTE"
    and p: "p = pos ctx + 1 + n"
    and pre: "\<forall>i<n. plain (input ctx ! (pos ctx + 1 + i))"
    and esc: "input ctx ! p = BSLASH" "input ctx ! (p + 1) = 0x75"
      "unicode_loop (input ctx) (p + 2) 0 0 = Some hi" "0xD800 \<le> hi" "hi \<le> 0xDBFF"
    and low: "input ctx ! (p + 6) = BSLASH" "input ctx ! (p + 7) = 0x75"
      "unicode_loop (input ctx) (p + 8) 0 0 = Some lo" "0xDC00 \<le> lo" "lo \<le> 0xDFFF"
    and suf: "\<forall>i<m. plain (input ctx ! (p + 12 + i))"
    and cl: "p + 12 + m < len ctx" "input ctx ! (p + 12 + m) = DQUOTE"
  shows "\<exists>c2. string_measure (advance 1 ctx) 0 False = (Inr (n + 4 + m, True), c2) \<and>
              c2 = ctx\<lparr> pos := p + 12 + m, col := col c2 \<rparr>"
proof -
  define c1 where "c1 = advance 1 ctx"
  define cp where "cp = advance n c1"
  define cq where "cq = advance 12 cp"
  define ce where "ce = advance m cq"
  have f: "input c1 = input ctx" "input cp = input ctx" "input cq = input ctx" "input ce = input ctx"
    "len c1 = len ctx" "len cp = len ctx" "len cq = len ctx" "len ce = len ctx"
    by (simp_all add: c1_def cp_def cq_def ce_def)
  have p1: "pos c1 = pos ctx + 1" by (simp add: c1_def)
  have pp: "pos cp = p" by (simp add: cp_def c1_def p)
  have pq: "pos cq = p + 12" by (simp add: cq_def pp)
  have pe: "pos ce = p + 12 + m" by (simp add: ce_def pq)
  have 1: "string_measure c1 0 False = string_measure cp (0 + n) False"
    unfolding cp_def
    using p1 f(1) pre by (rule measure_plain_run_at) (use cl(1) in \<open>simp add: f p\<close>)
  have 2: "string_measure cp n False = string_measure cq (n + 4) True"
    unfolding cq_def
    using esc low cl(1) by (intro measure_surrogate_ok [of cp hi lo]) (simp_all add: pp f)
  have 3: "string_measure cq (n + 4) True = string_measure ce (n + 4 + m) True"
    unfolding ce_def
    using pq f(3) suf by (rule measure_plain_run_at) (use cl(1) in \<open>simp add: f\<close>)
  have 4: "string_measure ce (n + 4 + m) True = (Inr (n + 4 + m, True), ce)"
    using cl by (intro measure_at_quote) (simp_all add: pe f)
  have "ce = ctx\<lparr> pos := p + 12 + m, col := col ce \<rparr>"
    using pe by (simp add: ce_def cq_def cp_def c1_def advance_def p)
  with 1 2 3 4 show ?thesis
    by (simp add: c1_def)
qed

lemma decode_plain_run_at:
  assumes "\<forall>i<n. plain (inp ! (p + i))" "r = p + n" "r \<le> e" "r \<le> length inp"
  shows "string_decode inp p e out = string_decode inp r e (out @ take n (drop p inp))"
  using decode_plain_run [of n inp p e out] assms by (simp add: run_bytes)

lemma surrogate_token_decode:
  assumes p: "p = q + 1 + n"
    and pre: "\<forall>i<n. plain (inp ! (q + 1 + i))"
    and esc: "inp ! p = BSLASH" "inp ! (p + 1) = 0x75"
      "unicode_loop inp (p + 2) 0 0 = Some hi" "0xD800 \<le> hi" "hi \<le> 0xDBFF"
    and low: "unicode_loop inp (p + 8) 0 0 = Some lo"
    and suf: "\<forall>i<m. plain (inp ! (p + 12 + i))"
    and inb: "p + 12 + m \<le> length inp"
  shows "string_decode inp (q + 1) (p + 12 + m) [] =
           take n (drop (q + 1) inp) @ encode_utf8 (surrogate_pair hi lo)
             @ take m (drop (p + 12) inp)"
proof -
  define e where "e = p + 12 + m"
  define xs where "xs = take n (drop (q + 1) inp)"
  define enc where "enc = encode_utf8 (surrogate_pair hi lo)"
  define ys where "ys = take m (drop (p + 12) inp)"
  have 1: "string_decode inp (q + 1) e [] = string_decode inp p e ([] @ xs)"
    unfolding xs_def using pre p by (rule decode_plain_run_at) (use inb in \<open>simp_all add: e_def\<close>)
  have 2: "string_decode inp p e xs = string_decode inp (p + 12) e (xs @ enc)"
    unfolding enc_def using esc low by (intro decode_surrogate) (simp_all add: e_def)
  have 3: "string_decode inp (p + 12) e (xs @ enc) = string_decode inp e e ((xs @ enc) @ ys)"
    unfolding ys_def using suf by (rule decode_plain_run_at) (use inb in \<open>simp_all add: e_def\<close>)
  from 1 2 3 show ?thesis by (simp add: decode_end e_def xs_def enc_def ys_def)
qed


text \<open>The four-byte form of UTF-8, for a code point from \<open>0x10000\<close> on.\<close>

definition utf8_4 :: "u32 \<Rightarrow> byte list" where
  "utf8_4 cp =
     [ucast (0xF0 OR drop_bit 18 cp), ucast (0x80 OR (drop_bit 12 cp AND 0x3F)),
      ucast (0x80 OR (drop_bit 6 cp AND 0x3F)), ucast (0x80 OR (cp AND 0x3F))]"

lemma long_string_node:
  assumes "slen < 2 ^ 60"
    and val_def: "val = set_str_ptr (val_set_payload (val_set_type (Val a 0 (Child [])) JSON_STRING_LONG)
                     (of_nat slen)) (bs @ [0])"
  shows "val_get_type val = JSON_STRING_LONG" "json_get_str_len (Some val) = slen"
    "json_get_str (Some val) = Region_ptr (bs @ [0])"
proof -
  have pl: "unat (take_bit 60 (of_nat slen :: u64)) = slen"
    using assms(1)
    by (simp add: unat_of_nat take_bit_nat_eq_self unsigned_take_bit_eq take_bit_of_nat)
  show "val_get_type val = JSON_STRING_LONG" "json_get_str_len (Some val) = slen"
    "json_get_str (Some val) = Region_ptr (bs @ [0])"
    using pl by (simp_all add: val_def query_defs node_defs tag_defs long_string_word)
qed

text \<open>
  C7. A string token: the opening quote at \<open>pos ctx\<close>, then \<open>n\<close> plain bytes, then at \<open>p\<close> a
  backslash, \<open>u\<close> and four hexadecimal digits whose value \<open>hi\<close> lies in \<open>D800..DBFF\<close>.
  If a backslash, \<open>u\<close> and four digits with a value \<open>lo\<close> in \<open>DC00..DFFF\<close> follow at once,
  and then \<open>m\<close> plain bytes and the closing quote, \<open>parse_string\<close> returns a long string
  (there being room in the arena and the string region) whose length is \<open>n + 4 + m\<close> and
  whose bytes are the \<open>n\<close> bytes, the four-byte UTF-8 form of the code point
  \<open>0x10000 + ((hi - 0xD800) << 10) + (lo - 0xDC00)\<close>, the \<open>m\<close> bytes and the terminator. If
  no such escape follows the first at once, \<open>parse_string\<close> fails with the error code
  \<open>String\<close>. The witness is the token with the escapes \<open>uD83D\<close> and \<open>uDE00\<close>, stored as
  \<open>F0 9F 98 80\<close>, the encoding of U+1F600, and the token with the escape \<open>uD83D\<close> followed
  by \<open>x\<close>, which fails with \<open>String\<close>, both also as whole documents.
\<close>

theorem surrogate_pair_decoding:
  assumes q: "pos ctx < len ctx" "input ctx ! pos ctx = DQUOTE"
    and inb: "len ctx \<le> length (input ctx)"
    and p: "p = pos ctx + 1 + n"
    and pre: "\<forall>i<n. plain (input ctx ! (pos ctx + 1 + i))"
    and esc: "p + 6 \<le> len ctx" "input ctx ! p = BSLASH" "input ctx ! (p + 1) = 0x75"
      "unicode_loop (input ctx) (p + 2) 0 0 = Some hi" "0xD800 \<le> hi" "hi \<le> 0xDBFF"
  shows
    "(\<forall>lo m. p + 12 + m < len ctx \<and> input ctx ! (p + 6) = BSLASH \<and>
        input ctx ! (p + 7) = 0x75 \<and> unicode_loop (input ctx) (p + 8) 0 0 = Some lo \<and>
        0xDC00 \<le> lo \<and> lo \<le> 0xDFFF \<and>
        (\<forall>i<m. plain (input ctx ! (p + 12 + i))) \<and> input ctx ! (p + 12 + m) = DQUOTE \<and>
        arena_used (doc ctx) + 24 \<le> arena_size (doc ctx) \<and>
        strings_used (doc ctx) + (n + 4 + m) + 1 \<le> strings_size (doc ctx) \<and>
        n + 4 + m < 2 ^ 60 \<longrightarrow>
        (\<exists>val cx cp. parse_string h ctx = (Ok val, cx) \<and> pos cx = p + 12 + m + 1 \<and>
           unat cp = 0x10000 + (unat hi - 0xD800) * 2 ^ 10 + (unat lo - 0xDC00) \<and>
           val_get_type val = JSON_STRING_LONG \<and>
           json_get_str_len (Some val) = n + 4 + m \<and>
           json_get_str (Some val) =
             Region_ptr (take n (drop (pos ctx + 1) (input ctx)) @ utf8_4 cp
                          @ take m (drop (p + 12) (input ctx)) @ [0]))) \<and>
     (\<not> (\<exists>lo. p + 12 \<le> len ctx \<and> input ctx ! (p + 6) = BSLASH \<and>
             input ctx ! (p + 7) = 0x75 \<and> unicode_loop (input ctx) (p + 8) 0 0 = Some lo \<and>
             0xDC00 \<le> lo \<and> lo \<le> 0xDFFF) \<longrightarrow>
        (\<exists>e cx. parse_string h ctx = (Fail e, cx) \<and> code e = JSON_ERROR_STRING))"
proof (intro conjI allI impI)
  fix lo m
  assume a: "p + 12 + m < len ctx \<and> input ctx ! (p + 6) = BSLASH \<and>
        input ctx ! (p + 7) = 0x75 \<and> unicode_loop (input ctx) (p + 8) 0 0 = Some lo \<and>
        0xDC00 \<le> lo \<and> lo \<le> 0xDFFF \<and>
        (\<forall>i<m. plain (input ctx ! (p + 12 + i))) \<and> input ctx ! (p + 12 + m) = DQUOTE \<and>
        arena_used (doc ctx) + 24 \<le> arena_size (doc ctx) \<and>
        strings_used (doc ctx) + (n + 4 + m) + 1 \<le> strings_size (doc ctx) \<and>
        n + 4 + m < 2 ^ 60"
  then have cl: "p + 12 + m < len ctx" "input ctx ! (p + 12 + m) = DQUOTE"
    and low: "input ctx ! (p + 6) = BSLASH" "input ctx ! (p + 7) = 0x75"
      "unicode_loop (input ctx) (p + 8) 0 0 = Some lo" "0xDC00 \<le> lo" "lo \<le> 0xDFFF"
    and suf: "\<forall>i<m. plain (input ctx ! (p + 12 + i))"
    and room: "arena_used (doc ctx) + 24 \<le> arena_size (doc ctx)"
      "strings_used (doc ctx) + (n + 4 + m) + 1 \<le> strings_size (doc ctx)"
    and small: "n + 4 + m < 2 ^ 60"
    by simp_all
  define cp where "cp = surrogate_pair hi lo"
  define slen where "slen = n + 4 + m"
  from surrogate_token_measure [OF q p pre esc(2-6) low suf cl] obtain c2
    where sm: "string_measure (advance 1 ctx) 0 False = (Inr (slen, True), c2)"
      and c2: "c2 = ctx\<lparr> pos := p + 12 + m, col := col c2 \<rparr>"
    unfolding slen_def by blast
  from c2 obtain k where c2': "c2 = ctx\<lparr> pos := p + 12 + m, col := k \<rparr>" by blast
  define e where "e = p + 12 + m"
  have f2: "pos c2 = e" "len c2 = len ctx" "input c2 = input ctx" "doc c2 = doc ctx"
    by (simp_all add: c2' e_def)
  define c3 where "c3 = advance 1 c2"
  have f3: "pos c3 = e + 1" "input c3 = input ctx" "doc c3 = doc ctx"
    by (simp_all add: c3_def f2)
  define d1 where "d1 = (doc c3)\<lparr> arena_used := arena_used (doc c3) + 24,
                            value_count := value_count (doc c3) + 1 \<rparr>"
  define a where "a = Addr (arena (doc c3)) (arena_used (doc c3))"
  have al: "ctx_alloc_val h c3 = (Ok (Val a 0 (Child [])), c3\<lparr> doc := d1 \<rparr>)"
    unfolding d1_def a_def using room(1) by (intro alloc_with_room) (simp add: f3)
  define d2 where "d2 = d1\<lparr> strings_used := strings_used d1 + (slen + 1) \<rparr>"
  have sa: "arena_alloc_string h d1 slen = Some (True, d2)"
    unfolding d2_def using room(2)
    by (intro string_alloc_with_room) (simp add: d1_def f3 slen_def)
  define bs where "bs = string_decode (input ctx) (pos ctx + 1) e []"
  define val where "val = set_str_ptr (val_set_payload
      (val_set_type (Val a 0 (Child [])) JSON_STRING_LONG) (of_nat slen)) (bs @ [0])"
  have ps: "parse_string h ctx = (Ok val, c3\<lparr> doc := d2 \<rparr>)"
    using q cl(1) [folded e_def] sm f2 al [unfolded c3_def] sa f3 [unfolded c3_def]
    by (simp add: parse_string_def Let_def c3_def val_def bs_def)
  have dec: "bs = take n (drop (pos ctx + 1) (input ctx)) @ encode_utf8 cp
                    @ take m (drop (p + 12) (input ctx))"
    unfolding bs_def cp_def e_def
    using p pre esc(2-6) low(3) suf
    by (rule surrogate_token_decode) (use cl(1) inb in simp)
  have enc: "encode_utf8 cp = utf8_4 cp"
    using encode_utf8_surrogate_pair [OF esc(5,6) low(4,5)]
    by (simp add: cp_def utf8_4_def Let_def)
  have u: "unat cp = 0x10000 + (unat hi - 0xD800) * 2 ^ 10 + (unat lo - 0xDC00)"
    using surrogate_pair_unat [OF esc(5,6) low(4,5)] by (simp add: cp_def)
  note node = long_string_node [OF small [folded slen_def] val_def]
  show "\<exists>val cx cp. parse_string h ctx = (Ok val, cx) \<and> pos cx = p + 12 + m + 1 \<and>
           unat cp = 0x10000 + (unat hi - 0xD800) * 2 ^ 10 + (unat lo - 0xDC00) \<and>
           val_get_type val = JSON_STRING_LONG \<and>
           json_get_str_len (Some val) = n + 4 + m \<and>
           json_get_str (Some val) =
             Region_ptr (take n (drop (pos ctx + 1) (input ctx)) @ utf8_4 cp
                          @ take m (drop (p + 12) (input ctx)) @ [0])"
    apply (rule exI [of _ val], rule exI [of _ "c3\<lparr> doc := d2 \<rparr>"], rule exI [of _ cp])
    using ps u node dec enc f3
    by (simp add: slen_def e_def)
next
  assume b: "\<not> (\<exists>lo. p + 12 \<le> len ctx \<and> input ctx ! (p + 6) = BSLASH \<and>
             input ctx ! (p + 7) = 0x75 \<and> unicode_loop (input ctx) (p + 8) 0 0 = Some lo \<and>
             0xDC00 \<le> lo \<and> lo \<le> 0xDFFF)"
  define c1 where "c1 = advance 1 ctx"
  define cp where "cp = advance n c1"
  have f: "input cp = input ctx" "len cp = len ctx" "pos cp = p"
    by (simp_all add: cp_def c1_def p)
  have 1: "string_measure c1 0 False = string_measure cp (0 + n) False"
    unfolding cp_def
    by (rule measure_plain_run_at [of c1 "pos ctx + 1" "input ctx"])
       (use pre esc(1) in \<open>simp_all add: c1_def p\<close>)
  from measure_surrogate_fail [of cp hi n False] esc b
  obtain e cx where 2: "string_measure cp n False = (Inl e, cx)" and e: "code e = JSON_ERROR_STRING"
    by (auto simp: f)
  from 1 2 have "string_measure (advance 1 ctx) 0 False = (Inl e, cx)"
    by (simp add: c1_def)
  from string_measure_error_fails_parse [OF q this, of h] e
  show "\<exists>e cx. parse_string h ctx = (Fail e, cx) \<and> code e = JSON_ERROR_STRING"
    by blast
qed

lemma ctx_at_fields:
  "input (ctx_at bs p) = bs" "pos (ctx_at bs p) = p" "len (ctx_at bs p) = length bs"
  "arena_used (doc (ctx_at bs p)) = 0" "arena_size (doc (ctx_at bs p)) = 65536"
  "strings_used (doc (ctx_at bs p)) = 0" "strings_size (doc (ctx_at bs p)) = 16384"
  by (simp_all add: ctx_at_def)

theorem surrogate_pair_decoding_witness:
  "(\<exists>val cx. parse_string plain_host (ctx_at grinning_face 0) = (Ok val, cx) \<and>
      json_get_str_len (Some val) = 4 \<and>
      json_get_str (Some val) = Region_ptr [0xF0, 0x9F, 0x98, 0x80, 0]) \<and>
   (\<exists>e cx. parse_string plain_host (ctx_at lone_surrogate 0) = (Fail e, cx) \<and>
      code e = JSON_ERROR_STRING) \<and>
   (\<exists>d e b. parse_json plain_host 0 no_error grinning_face 14 None = Some (Some d, e, b) \<and>
      json_get_str (root d) = Region_ptr [0xF0, 0x9F, 0x98, 0x80, 0] \<and>
      json_get_str_len (root d) = 4) \<and>
   (\<exists>e b. parse_json plain_host 0 no_error lone_surrogate 9 None = Some (None, e, b) \<and>
      code e = JSON_ERROR_STRING)"
proof -
  let ?C = "ctx_at grinning_face 0"
  let ?L = "ctx_at lone_surrogate 0"
  have a1: "pos ?C < len ?C" and a2: "input ?C ! pos ?C = DQUOTE"
    and a3: "len ?C \<le> length (input ?C)" and a4: "1 = pos ?C + 1 + 0"
    and a5: "\<forall>i<0. plain (input ?C ! (pos ?C + 1 + i))"
    and a6: "1 + 6 \<le> len ?C" and a7: "input ?C ! 1 = BSLASH" and a8: "input ?C ! (1 + 1) = 0x75"
    by (simp_all add: ctx_at_fields grinning_face_def)
  have a9: "unicode_loop (input ?C) (1 + 2) 0 0 = Some 0xD83D"
    by (simp add: ctx_at_fields grinning_face_def unicode_loop_4 hex_digit_def Let_def)
  have a10: "0xD800 \<le> (0xD83D :: u32)" and a11: "(0xD83D :: u32) \<le> 0xDBFF"
    by simp_all
  have b: "1 + 12 + 0 < len ?C \<and> input ?C ! (1 + 6) = BSLASH \<and>
        input ?C ! (1 + 7) = 0x75 \<and> unicode_loop (input ?C) (1 + 8) 0 0 = Some 0xDE00 \<and>
        0xDC00 \<le> (0xDE00 :: u32) \<and> (0xDE00 :: u32) \<le> 0xDFFF \<and>
        (\<forall>i<0. plain (input ?C ! (1 + 12 + i))) \<and> input ?C ! (1 + 12 + 0) = DQUOTE \<and>
        arena_used (doc ?C) + 24 \<le> arena_size (doc ?C) \<and>
        strings_used (doc ?C) + (0 + 4 + 0) + 1 \<le> strings_size (doc ?C) \<and>
        0 + 4 + 0 < (2 :: nat) ^ 60"
    by (simp add: ctx_at_fields grinning_face_def unicode_loop_4 hex_digit_def Let_def)
  from surrogate_pair_decoding [OF a1 a2 a3 a4 a5 a6 a7 a8 a9 a10 a11, of plain_host,
      THEN conjunct1, THEN spec, THEN spec, THEN mp, OF b]
  obtain val cx cp where ok: "parse_string plain_host ?C = (Ok val, cx)"
    and cp: "unat cp = 0x10000 + (unat (0xD83D :: u32) - 0xD800) * 2 ^ 10 + (unat (0xDE00 :: u32) - 0xDC00)"
    and n: "json_get_str_len (Some val) = 0 + 4 + 0"
    and bs: "json_get_str (Some val) =
             Region_ptr (take 0 (drop (pos ?C + 1) (input ?C)) @ utf8_4 cp
                          @ take 0 (drop (1 + 12) (input ?C)) @ [0])"
    by blast
  from cp have "unat cp = unat (0x1F600 :: u32)" by simp
  then have "cp = 0x1F600" by (simp only: word_unat_eq_iff)
  with bs have bs': "json_get_str (Some val) = Region_ptr [0xF0, 0x9F, 0x98, 0x80, 0]"
    by (simp add: utf8_4_def)
  have 1: "\<exists>val cx. parse_string plain_host ?C = (Ok val, cx) \<and>
      json_get_str_len (Some val) = 4 \<and>
      json_get_str (Some val) = Region_ptr [0xF0, 0x9F, 0x98, 0x80, 0]"
    using ok n bs' by simp
  have c1: "pos ?L < len ?L" and c2: "input ?L ! pos ?L = DQUOTE"
    and c3: "len ?L \<le> length (input ?L)" and c4: "1 = pos ?L + 1 + 0"
    and c5: "\<forall>i<0. plain (input ?L ! (pos ?L + 1 + i))"
    and c6: "1 + 6 \<le> len ?L" and c7: "input ?L ! 1 = BSLASH" and c8: "input ?L ! (1 + 1) = 0x75"
    by (simp_all add: ctx_at_fields lone_surrogate_def)
  have c9: "unicode_loop (input ?L) (1 + 2) 0 0 = Some 0xD83D"
    by (simp add: ctx_at_fields lone_surrogate_def unicode_loop_4 hex_digit_def Let_def)
  have nb: "\<not> (\<exists>lo. 1 + 12 \<le> len ?L \<and> input ?L ! (1 + 6) = BSLASH \<and>
             input ?L ! (1 + 7) = 0x75 \<and> unicode_loop (input ?L) (1 + 8) 0 0 = Some lo \<and>
             0xDC00 \<le> lo \<and> lo \<le> 0xDFFF)"
    by (simp add: ctx_at_fields lone_surrogate_def)
  have 2: "\<exists>e cx. parse_string plain_host ?L = (Fail e, cx) \<and> code e = JSON_ERROR_STRING"
    by (rule surrogate_pair_decoding [OF c1 c2 c3 c4 c5 c6 c7 c8 c9 a10 a11, of plain_host,
      THEN conjunct2, THEN mp, OF nb])
  have 3: "\<exists>d e b. parse_json plain_host 0 no_error grinning_face 14 None = Some (Some d, e, b) \<and>
      json_get_str (root d) = Region_ptr [0xF0, 0x9F, 0x98, 0x80, 0] \<and>
      json_get_str_len (root d) = 4"
    by (simp add: grinning_face_def plain_host_def fuel_numeral loop_simps parse_defs arena_defs
        node_defs tag_defs query_defs cong: case_congs)
  have 4: "\<exists>e b. parse_json plain_host 0 no_error lone_surrogate 9 None = Some (None, e, b) \<and>
      code e = JSON_ERROR_STRING"
    by (simp add: lone_surrogate_def plain_host_def fuel_numeral loop_simps parse_defs arena_defs
        node_defs tag_defs query_defs cong: case_congs)
  from 1 2 3 4 show ?thesis by blast
qed

text \<open>
  C6. The claim: a string token of at most 7 decoded bytes and no escape is stored
  inline, any other in the long layout, and in both layouts \<open>json_get_str\<close> and
  \<open>json_get_str_len\<close> return the decoded bytes and their number. At the return of
  \<open>parse_string\<close> this holds (\<open>parse_string_layout\<close>). For a key of an object,
  \<open>parse_object\<close> then stores the pointer to the value in \<open>key->child\<close>, the word that
  holds \<open>str_ptr\<close> of a long string: in \<open>{"abcdefgh":1}\<close> the string pointer of the key
  is the pointer to the node of \<open>1\<close>, and the key is not found by its name. The same
  string as a value keeps its bytes.
\<close>

theorem long_key_string_pointer_overwritten:
  "(\<exists>d e b. parse_json plain_host 0 no_error long_string 10 None = Some (Some d, e, b) \<and>
      json_get_str (root d) = Region_ptr (bytes_of ''abcdefgh'' @ [0]) \<and>
      json_get_str_len (root d) = 8) \<and>
   (\<exists>d e b key v. parse_json plain_host 0 no_error long_key_object 14 None = Some (Some d, e, b) \<and>
      json_obj_first (root d) = [key] \<and> child key = [v] \<and>
      val_get_type key = JSON_STRING_LONG \<and>
      json_get_str_len (Some key) = 8 \<and>
      json_get_str (Some key) = Node_ptr v \<and>
      json_get_type (Some v) = JSON_INT \<and>
      cptr_read plain_host (json_get_str (Some key)) 8 = node_bytes plain_host v 8 \<and>
      json_obj_get plain_host (root d) (Some (bytes_of ''abcdefgh'')) = None)"
  by (simp add: long_string_def long_key_object_def plain_host_def fuel_numeral loop_simps
      parse_defs arena_defs node_defs tag_defs query_defs cong: case_congs)


theorem long_key_string_pointer_overwritten_witness:
  "\<exists>d e b key v. parse_json plain_host 0 no_error long_key_object 14 None = Some (Some d, e, b) \<and>
      json_obj_first (root d) = [key] \<and> child key = [v] \<and>
      json_get_str (Some key) = Node_ptr v"
  using long_key_string_pointer_overwritten by blast

section \<open>Scanning kernels\<close>

text \<open>
  The parser's three kernels exist in a scalar version (\<^verbatim>\<open>parse.c\<close>) and in NEON versions
  (\<^verbatim>\<open>arm64/simd_arm64.c\<close>); \<^verbatim>\<open>json_init\<close> installs one family in the dispatch table. A
  kernel takes the slice \<^verbatim>\<open>str, len\<close>, here a byte list, and the out-parameters are returned
  in a pair: \<^verbatim>\<open>find_structural\<close> gives (count, mask), \<^verbatim>\<open>parse_int\<close> gives (value, consumed),
  with the \<^verbatim>\<open>int64_t\<close> value as a 64-bit word in two's complement. The loop variable \<^verbatim>\<open>pos\<close> of
  the source is written \<open>p\<close>.

  A \<^verbatim>\<open>uint8x16_t\<close> is a list of sixteen bytes, lane 0 first;
  \<^verbatim>\<open>vgetq_lane_u64 (vreinterpretq_u64_u8 v) k\<close> reads eight of them as a little-endian word. The
  loops that return from inside the chunk loop give \<open>Inl\<close> of the returned value. In
  \<^verbatim>\<open>find_structural_neon\<close> the vector comparison computes a value (\<^verbatim>\<open>result\<close>) that is never read;
  the mask comes from the byte loop that follows, which is what the model has.
\<close>

function scan_string_scalar_loop :: "byte list \<Rightarrow> nat \<Rightarrow> nat" where
  "scan_string_scalar_loop str i =
     (if i < length str then
        (let c = str ! i
         in if c = DQUOTE \<or> c = BSLASH \<or> c < 0x20 then i
            else scan_string_scalar_loop str (i + 1))
      else length str)"
  by pat_completeness auto
termination
  by (relation "measure (\<lambda>(str, i). length str - i)") auto

definition scan_string_scalar :: "byte list \<Rightarrow> nat" where
  "scan_string_scalar str = scan_string_scalar_loop str 0"

type_synonym uint8x16_t = "byte list"

definition vdupq_n_u8 :: "byte \<Rightarrow> uint8x16_t" where
  "vdupq_n_u8 c = replicate 16 c"

definition vld1q_u8 :: "byte list \<Rightarrow> nat \<Rightarrow> uint8x16_t" where
  "vld1q_u8 str p = take 16 (drop p str)"

definition vceqq_u8 :: "uint8x16_t \<Rightarrow> uint8x16_t \<Rightarrow> uint8x16_t" where
  "vceqq_u8 a b = map2 (\<lambda>x y. if x = y then 0xFF else 0) a b"

definition vcltq_u8 :: "uint8x16_t \<Rightarrow> uint8x16_t \<Rightarrow> uint8x16_t" where
  "vcltq_u8 a b = map2 (\<lambda>x y. if x < y then 0xFF else 0) a b"

definition vorrq_u8 :: "uint8x16_t \<Rightarrow> uint8x16_t \<Rightarrow> uint8x16_t" where
  "vorrq_u8 a b = map2 (OR) a b"

definition lane_u64 :: "byte list \<Rightarrow> u64" where
  "lane_u64 bs = foldr (\<lambda>b w. ucast b OR push_bit 8 w) bs 0"

definition vgetq_lane_u64 :: "uint8x16_t \<Rightarrow> nat \<Rightarrow> u64" where
  "vgetq_lane_u64 v k = lane_u64 (take 8 (drop (8 * k) v))"

function first_set_byte :: "u64 \<Rightarrow> nat \<Rightarrow> nat option" where
  "first_set_byte w i =
     (if i < 8 then
        (if drop_bit (i * 8) w AND 0xFF \<noteq> 0 then Some i else first_set_byte w (i + 1))
      else None)"
  by pat_completeness auto
termination
  by (relation "measure (\<lambda>(w, i). 8 - i)") auto

function neon_chunks :: "byte list \<Rightarrow> nat \<Rightarrow> nat + nat" where
  "neon_chunks str p =
     (if p + 16 \<le> length str then
        (let chunk = vld1q_u8 str p;
             quote_match = vceqq_u8 chunk (vdupq_n_u8 DQUOTE);
             bslash_match = vceqq_u8 chunk (vdupq_n_u8 BSLASH);
             ctrl_match = vcltq_u8 chunk (vdupq_n_u8 0x20);
             any_match = vorrq_u8 (vorrq_u8 quote_match bslash_match) ctrl_match;
             low = vgetq_lane_u64 any_match 0;
             high = vgetq_lane_u64 any_match 1
         in case (if low \<noteq> 0 then first_set_byte low 0 else None) of
              Some i \<Rightarrow> Inl (p + i)
            | None \<Rightarrow>
               (case (if high \<noteq> 0 then first_set_byte high 0 else None) of
                  Some i \<Rightarrow> Inl (p + 8 + i)
                | None \<Rightarrow> neon_chunks str (p + 16)))
      else Inr p)"
  by pat_completeness auto
termination
  by (relation "measure (\<lambda>(str, p). length str - p)") auto

function neon_tail :: "byte list \<Rightarrow> nat \<Rightarrow> nat" where
  "neon_tail str p =
     (if p < length str then
        (let c = str ! p
         in if c = DQUOTE \<or> c = BSLASH \<or> c < 0x20 then p
            else neon_tail str (p + 1))
      else length str)"
  by pat_completeness auto
termination
  by (relation "measure (\<lambda>(str, p). length str - p)") auto

definition scan_string_neon :: "byte list \<Rightarrow> nat" where
  "scan_string_neon str =
     (if length str = 0 then 0
      else case neon_chunks str 0 of Inl r \<Rightarrow> r | Inr p \<Rightarrow> neon_tail str p)"

definition stop_byte :: "byte \<Rightarrow> bool" where
  "stop_byte c \<longleftrightarrow> c = DQUOTE \<or> c = BSLASH \<or> c < 0x20"

definition match_byte :: "byte \<Rightarrow> byte" where
  "match_byte c =
     ((if c = DQUOTE then 0xFF else 0) OR (if c = BSLASH then 0xFF else 0))
       OR (if c < 0x20 then 0xFF else 0)"

declare scan_string_scalar_loop.simps [simp del] first_set_byte.simps [simp del]
  neon_chunks.simps [simp del] neon_tail.simps [simp del]

function scalar_structural_loop :: "byte list \<Rightarrow> nat \<Rightarrow> nat \<Rightarrow> u64 \<Rightarrow> u64" where
  "scalar_structural_loop str count i m =
     (if i < count then
        (let c = str ! i
         in scalar_structural_loop str count (i + 1)
              (if c = 0x7B \<or> c = 0x7D \<or> c = 0x5B \<or> c = 0x5D
                  \<or> c = 0x3A \<or> c = 0x2C \<or> c = DQUOTE
               then m OR push_bit i 1 else m))
      else m)"
  by pat_completeness auto
termination
  by (relation "measure (\<lambda>(str, count, i, m). count - i)") auto

definition find_structural_scalar :: "byte list \<Rightarrow> nat \<times> u64" where
  "find_structural_scalar str =
     (let count = (if length str < 64 then length str else 64);
          m = scalar_structural_loop str count 0 0
      in (count, m))"

function neon_structural_loop :: "byte list \<Rightarrow> nat \<Rightarrow> nat \<Rightarrow> u64 \<Rightarrow> u64" where
  "neon_structural_loop str count i final_mask =
     (if i < count then
        (let c = str ! i
         in neon_structural_loop str count (i + 1)
              (if c = 0x7B \<or> c = 0x7D \<or> c = 0x5B \<or> c = 0x5D
                  \<or> c = 0x3A \<or> c = 0x2C \<or> c = DQUOTE
               then final_mask OR push_bit i 1 else final_mask))
      else final_mask)"
  by pat_completeness auto
termination
  by (relation "measure (\<lambda>(str, count, i, m). count - i)") auto

definition find_structural_neon :: "byte list \<Rightarrow> nat \<times> u64" where
  "find_structural_neon str =
     (if length str = 0 then (0, 0)
      else (let count = (if length str < 16 then length str else 16);
                final_mask = neon_structural_loop str count 0 0
            in (count, final_mask)))"

function parse_int_scalar_loop :: "byte list \<Rightarrow> nat \<Rightarrow> u64 \<Rightarrow> u64 \<times> nat" where
  "parse_int_scalar_loop str i result =
     (if i < length str \<and> 0x30 \<le> str ! i \<and> str ! i \<le> 0x39 then
        parse_int_scalar_loop str (i + 1) (result * 10 + ucast (str ! i - 0x30))
      else (result, i))"
  by pat_completeness auto
termination
  by (relation "measure (\<lambda>(str, i, result). length str - i)") auto

definition parse_int_scalar :: "byte list \<Rightarrow> u64 \<times> nat" where
  "parse_int_scalar str =
     (let negative = (0 < length str \<and> str ! 0 = 0x2D);
          i = (if negative then 1 else 0);
          (result, i) = parse_int_scalar_loop str i 0
      in (if negative then - result else result, i))"

function count_digits :: "byte list \<Rightarrow> nat \<Rightarrow> nat \<Rightarrow> nat" where
  "count_digits str p digit_count =
     (if p + digit_count < length str \<and> 0x30 \<le> str ! (p + digit_count)
          \<and> str ! (p + digit_count) \<le> 0x39 then
        (if digit_count + 1 \<ge> 19 then digit_count + 1
         else count_digits str p (digit_count + 1))
      else digit_count)"
  by pat_completeness auto
termination
  by (relation "measure (\<lambda>(str, p, digit_count). length str - (p + digit_count))") auto

function parse_int_neon_loop :: "byte list \<Rightarrow> nat \<Rightarrow> nat \<Rightarrow> nat \<Rightarrow> u64 \<Rightarrow> u64" where
  "parse_int_neon_loop str p digit_count i result =
     (if i < digit_count then
        parse_int_neon_loop str p digit_count (i + 1)
          (result * 10 + ucast (str ! (p + i) - 0x30))
      else result)"
  by pat_completeness auto
termination
  by (relation "measure (\<lambda>(str, p, digit_count, i, result). digit_count - i)") auto

definition parse_int_neon :: "byte list \<Rightarrow> u64 \<times> nat" where
  "parse_int_neon str =
     (if length str = 0 then (0, 0)
      else (let negative = (str ! 0 = 0x2D);
                p = (if negative then 1 else 0);
                digit_count = count_digits str p 0
            in if digit_count = 0 then (0, 0)
               else (let result = parse_int_neon_loop str p digit_count 0 0
                     in (if negative then - result else result, p + digit_count))))"

definition is_digit :: "byte \<Rightarrow> bool" where
  "is_digit c \<longleftrightarrow> 0x30 \<le> c \<and> c \<le> 0x39"

definition has_sign :: "byte list \<Rightarrow> bool" where
  "has_sign str \<longleftrightarrow> str \<noteq> [] \<and> hd str = 0x2D"

definition digit_run :: "byte list \<Rightarrow> nat" where
  "digit_run str = length (takeWhile is_digit (drop (if has_sign str then 1 else 0) str))"

definition add_digit :: "u64 \<Rightarrow> byte \<Rightarrow> u64" where
  "add_digit result c = result * 10 + ucast (c - 0x30)"

definition sixteen_letters_and_brace :: "byte list" where
  "sixteen_letters_and_brace = bytes_of ''aaaaaaaaaaaaaaaa{''"

definition minus_sign :: "byte list" where
  "minus_sign = bytes_of ''-''"

declare scalar_structural_loop.simps [simp del] neon_structural_loop.simps [simp del]
  parse_int_scalar_loop.simps [simp del] count_digits.simps [simp del]
  parse_int_neon_loop.simps [simp del]

lemmas kernel_simps = scalar_structural_loop.simps neon_structural_loop.simps
  parse_int_scalar_loop.simps count_digits.simps parse_int_neon_loop.simps
  find_structural_scalar_def find_structural_neon_def parse_int_scalar_def parse_int_neon_def

definition minus_42 :: "byte list" where
  "minus_42 = bytes_of ''-42]''"

definition twenty_digits :: "byte list" where
  "twenty_digits = bytes_of ''00000000000000000001''"


subsection \<open>The NEON string scan is the scalar one\<close>

lemma bit_lane_u64:
  "bit (lane_u64 bs) n \<longleftrightarrow> n < 64 \<and> n div 8 < length bs \<and> bit (bs ! (n div 8)) (n mod 8)"
proof (induction bs arbitrary: n)
  case Nil
  then show ?case by (simp add: lane_u64_def)
next
  case (Cons b bs)
  have l: "lane_u64 (b # bs) = ucast b OR push_bit 8 (lane_u64 bs)"
    by (simp add: lane_u64_def)
  show ?case
  proof (cases "n < 8")
    case True
    then show ?thesis
      by (auto simp: l bit_simps dest: bit_imp_le_length)
  next
    case False
    then have d: "n div 8 = Suc ((n - 8) div 8)" "n mod 8 = (n - 8) mod 8"
      by (simp_all add: le_div_geq le_mod_geq)
    from False show ?thesis
      by (auto simp: l bit_simps Cons.IH d dest: bit_imp_le_length)
  qed
qed

lemma lane_byte:
  assumes "i < 8" "i < length bs"
  shows "drop_bit (i * 8) (lane_u64 bs) AND 0xFF = ucast (bs ! i)"
proof (rule bit_word_eqI)
  fix n assume "n < LENGTH(64)"
  have m: "(0xFF :: u64) = mask 8" by (simp add: mask_eq_exp_minus_1)
  show "bit (drop_bit (i * 8) (lane_u64 bs) AND 0xFF) n = bit (ucast (bs ! i) :: u64) n"
  proof (cases "n < 8")
    case True
    then have "(i * 8 + n) div 8 = i" "(i * 8 + n) mod 8 = n" by simp_all
    with True assms show ?thesis
      by (simp add: m bit_simps bit_lane_u64)
  next
    case False
    then have "\<not> bit (bs ! i) n" by (auto dest: bit_imp_le_length)
    with False show ?thesis
      by (simp add: m bit_simps)
  qed
qed


lemma first_set_byte_None:
  "first_set_byte w i = None \<Longrightarrow> i \<le> k \<Longrightarrow> k < 8
     \<Longrightarrow> drop_bit (k * 8) w AND 0xFF = 0"
proof (induction w i rule: first_set_byte.induct)
  case (1 w i)
  from "1.prems" have i: "i < 8" by simp
  from "1.prems"(1) i have z: "drop_bit (i * 8) w AND 0xFF = 0"
    by (subst (asm) first_set_byte.simps) (simp split: if_splits)
  from "1.prems"(1) i z have n: "first_set_byte w (i + 1) = None"
    by (subst (asm) first_set_byte.simps) simp
  show ?case
  proof (cases "k = i")
    case True
    with z show ?thesis by simp
  next
    case False
    with "1.prems" have "i + 1 \<le> k" by simp
    with "1.IH" [OF i _ n] z "1.prems" show ?thesis by simp
  qed
qed

lemma first_set_byte_Some:
  "first_set_byte w i = Some j \<Longrightarrow>
     i \<le> j \<and> j < 8 \<and> drop_bit (j * 8) w AND 0xFF \<noteq> 0
     \<and> (\<forall>k. i \<le> k \<and> k < j \<longrightarrow> drop_bit (k * 8) w AND 0xFF = 0)"
proof (induction w i rule: first_set_byte.induct)
  case (1 w i)
  from "1.prems" have i: "i < 8"
    by (subst (asm) first_set_byte.simps) (simp split: if_splits)
  show ?case
  proof (cases "drop_bit (i * 8) w AND 0xFF = 0")
    case True
    with "1.prems" i have n: "first_set_byte w (i + 1) = Some j"
      by (subst (asm) first_set_byte.simps) simp
    from "1.IH" [OF i _ n] True
    have a: "i + 1 \<le> j" "j < 8" "drop_bit (j * 8) w AND 0xFF \<noteq> 0"
      and b: "\<forall>k. i + 1 \<le> k \<and> k < j \<longrightarrow> drop_bit (k * 8) w AND 0xFF = 0"
      by simp_all
    have "drop_bit (k * 8) w AND 0xFF = 0" if "i \<le> k" "k < j" for k
    proof (cases "k = i")
      case True
      with \<open>drop_bit (i * 8) w AND 0xFF = 0\<close> show ?thesis by simp
    next
      case False
      with that have "i + 1 \<le> k" by simp
      with b that show ?thesis by blast
    qed
    with a show ?thesis by simp
  next
    case False
    with "1.prems" i have "j = i"
      by (subst (asm) first_set_byte.simps) simp
    with False i show ?thesis by simp
  qed
qed

lemma first_set_byte_zero: "first_set_byte 0 i = None"
proof (induction "0 :: u64" i rule: first_set_byte.induct)
  case (1 i)
  then show ?case
    by (subst first_set_byte.simps) simp
qed

lemma zip_replicate_right:
  "length xs = n \<Longrightarrow> zip xs (replicate n c) = map (\<lambda>x. (x, c)) xs"
  by (induction xs arbitrary: n) auto

lemma any_match_map:
  assumes "length chunk = 16"
  shows "vorrq_u8 (vorrq_u8 (vceqq_u8 chunk (vdupq_n_u8 DQUOTE))
                            (vceqq_u8 chunk (vdupq_n_u8 BSLASH)))
                  (vcltq_u8 chunk (vdupq_n_u8 0x20))
         = map match_byte chunk"
  using assms
  by (simp add: vorrq_u8_def vceqq_u8_def vcltq_u8_def vdupq_n_u8_def
      zip_replicate_right zip_map_map zip_same_conv_map match_byte_def comp_def)

lemma match_byte_stop: "ucast (match_byte c) = (0 :: u64) \<longleftrightarrow> \<not> stop_byte c"
  by (simp add: match_byte_def stop_byte_def)


lemma scalar_hit:
  "p < length str \<Longrightarrow> stop_byte (str ! p) \<Longrightarrow> scan_string_scalar_loop str p = p"
  by (subst scan_string_scalar_loop.simps) (simp add: stop_byte_def)

lemma scalar_skip:
  "p + n \<le> length str \<Longrightarrow> (\<forall>k<n. \<not> stop_byte (str ! (p + k)))
     \<Longrightarrow> scan_string_scalar_loop str p = scan_string_scalar_loop str (p + n)"
proof (induction n arbitrary: p)
  case 0
  then show ?case by simp
next
  case (Suc n)
  from Suc.prems have p: "p < length str" and s: "\<not> stop_byte (str ! p)"
    by auto
  have "\<forall>k<n. \<not> stop_byte (str ! (Suc p + k))"
  proof (intro allI impI)
    fix k assume "k < n"
    with Suc.prems(2) have "\<not> stop_byte (str ! (p + Suc k))" by blast
    then show "\<not> stop_byte (str ! (Suc p + k))" by simp
  qed
  with Suc.IH [of "Suc p"] Suc.prems(1)
  have "scan_string_scalar_loop str (Suc p) = scan_string_scalar_loop str (Suc p + n)"
    by simp
  moreover from p s have "scan_string_scalar_loop str p = scan_string_scalar_loop str (Suc p)"
    by (subst scan_string_scalar_loop.simps) (simp add: stop_byte_def)
  ultimately show ?case by simp
qed

lemma neon_tail_scalar: "neon_tail str p = scan_string_scalar_loop str p"
proof (induction str p rule: neon_tail.induct)
  case (1 str p)
  show ?case
    using 1
    by (subst neon_tail.simps, subst scan_string_scalar_loop.simps) (simp add: Let_def)
qed

lemma lane_low:
  assumes "length v = 16" "i < 8"
  shows "drop_bit (i * 8) (vgetq_lane_u64 v 0) AND 0xFF = ucast (v ! i)"
  using assms by (simp add: vgetq_lane_u64_def lane_byte)

lemma lane_high:
  assumes "length v = 16" "i < 8"
  shows "drop_bit (i * 8) (vgetq_lane_u64 v 1) AND 0xFF = ucast (v ! (8 + i))"
  using assms by (simp add: vgetq_lane_u64_def lane_byte)

lemma neon_chunks_scalar:
  "(case neon_chunks str p of Inl r \<Rightarrow> r | Inr q \<Rightarrow> scan_string_scalar_loop str q)
     = scan_string_scalar_loop str p"
proof (induction str p rule: neon_chunks.induct)
  case (1 str p)
  show ?case
  proof (cases "p + 16 \<le> length str")
    case False
    then show ?thesis
      by (subst neon_chunks.simps) simp
  next
    case True
    define chunk where "chunk = vld1q_u8 str p"
    define v where "v = map match_byte chunk"
    define low where "low = vgetq_lane_u64 v 0"
    define high where "high = vgetq_lane_u64 v 1"
    from True have lc: "length chunk = 16"
      by (simp add: chunk_def vld1q_u8_def)
    then have lv: "length v = 16" by (simp add: v_def)
    have nth: "v ! k = match_byte (str ! (p + k))" if "k < 16" for k
      using that True lc by (simp add: v_def chunk_def vld1q_u8_def)
    have blow: "drop_bit (i * 8) low AND 0xFF = 0 \<longleftrightarrow> \<not> stop_byte (str ! (p + i))"
      if "i < 8" for i
      using that lane_low [OF lv that] nth [of i] by (simp add: low_def match_byte_stop)
    have bhigh: "drop_bit (i * 8) high AND 0xFF = 0 \<longleftrightarrow> \<not> stop_byte (str ! (p + 8 + i))"
      if "i < 8" for i
      using that lane_high [OF lv that] nth [of "8 + i"]
      by (simp add: high_def match_byte_stop add.assoc)
    have il: "(if low \<noteq> 0 then first_set_byte low 0 else None) = first_set_byte low 0"
      by (simp add: first_set_byte_zero)
    have ih: "(if high \<noteq> 0 then first_set_byte high 0 else None) = first_set_byte high 0"
      by (simp add: first_set_byte_zero)
    have am: "vorrq_u8 (vorrq_u8 (vceqq_u8 (vld1q_u8 str p) (vdupq_n_u8 DQUOTE))
                                 (vceqq_u8 (vld1q_u8 str p) (vdupq_n_u8 BSLASH)))
                       (vcltq_u8 (vld1q_u8 str p) (vdupq_n_u8 0x20)) = v"
      using any_match_map [OF lc] by (simp add: v_def chunk_def)
    have unfold: "neon_chunks str p =
       (case first_set_byte low 0 of
          Some i \<Rightarrow> Inl (p + i)
        | None \<Rightarrow> (case first_set_byte high 0 of
                      Some i \<Rightarrow> Inl (p + 8 + i)
                    | None \<Rightarrow> neon_chunks str (p + 16)))"
      by (subst neon_chunks.simps)
        (simp only: True if_True Let_def am low_def [symmetric] high_def [symmetric] il ih)
    show ?thesis
    proof (cases "first_set_byte low 0")
      case (Some i)
      from first_set_byte_Some [OF Some]
      have i: "i < 8" and hit: "drop_bit (i * 8) low AND 0xFF \<noteq> 0"
        and before: "\<forall>k<i. drop_bit (k * 8) low AND 0xFF = 0"
        by simp_all
      from hit blow [OF i] have s: "stop_byte (str ! (p + i))" by simp
      have ns: "\<forall>k<i. \<not> stop_byte (str ! (p + k))"
      proof (intro allI impI)
        fix k assume k: "k < i"
        with i have "k < 8" by simp
        from blow [OF this] before k show "\<not> stop_byte (str ! (p + k))" by simp
      qed
      from True i have b: "p + i \<le> length str" "p + i < length str" by simp_all
      from scalar_skip [OF b(1) ns] scalar_hit [OF b(2) s]
      have "scan_string_scalar_loop str p = p + i" by simp
      with Some unfold show ?thesis by simp
    next
      case None
      have nl: "\<not> stop_byte (str ! (p + k))" if "k < 8" for k
        using first_set_byte_None [OF None _ that] blow [OF that] by simp
      show ?thesis
      proof (cases "first_set_byte high 0")
        case (Some i)
        from first_set_byte_Some [OF Some]
        have i: "i < 8" and hit: "drop_bit (i * 8) high AND 0xFF \<noteq> 0"
          and before: "\<forall>k<i. drop_bit (k * 8) high AND 0xFF = 0"
          by simp_all
        from hit bhigh [OF i] have s: "stop_byte (str ! (p + 8 + i))" by simp
        have ns: "\<forall>k<8 + i. \<not> stop_byte (str ! (p + k))"
        proof (intro allI impI)
          fix k assume k: "k < 8 + i"
          show "\<not> stop_byte (str ! (p + k))"
          proof (cases "k < 8")
            case True
            then show ?thesis by (rule nl)
          next
            case False
            then have e: "k = 8 + (k - 8)" by simp
            from False k have "k - 8 < i" by simp
            with before i bhigh [of "k - 8"]
            have "\<not> stop_byte (str ! (p + 8 + (k - 8)))" by simp
            with False show ?thesis by (simp add: add.assoc)
          qed
        qed
        from True i have b: "p + (8 + i) \<le> length str" "p + 8 + i < length str"
          by simp_all
        from scalar_skip [OF b(1) ns] scalar_hit [OF b(2) s]
        have "scan_string_scalar_loop str p = p + 8 + i" by (simp add: add.assoc)
        with Some None unfold show ?thesis by simp
      next
        case None2: None
        have ns: "\<forall>k<16. \<not> stop_byte (str ! (p + k))"
        proof (intro allI impI)
          fix k :: nat assume k: "k < 16"
          show "\<not> stop_byte (str ! (p + k))"
          proof (cases "k < 8")
            case True
            then show ?thesis by (rule nl)
          next
            case False
            with k have k8: "k - 8 < 8" by simp
            from first_set_byte_None [OF None2 _ k8] bhigh [OF k8]
            have "\<not> stop_byte (str ! (p + 8 + (k - 8)))" by simp
            with False show ?thesis by (simp add: add.assoc)
          qed
        qed
        from scalar_skip [OF True ns]
        have sk: "scan_string_scalar_loop str p = scan_string_scalar_loop str (p + 16)" .
        have "(case neon_chunks str (p + 16) of Inl r \<Rightarrow> r
               | Inr q \<Rightarrow> scan_string_scalar_loop str q)
              = scan_string_scalar_loop str (p + 16)"
        proof (rule "1.IH" [OF True refl refl refl refl refl refl refl])
          show "(if vgetq_lane_u64 (vorrq_u8 (vorrq_u8 (vceqq_u8 (vld1q_u8 str p) (vdupq_n_u8 DQUOTE))
                                 (vceqq_u8 (vld1q_u8 str p) (vdupq_n_u8 BSLASH)))
                       (vcltq_u8 (vld1q_u8 str p) (vdupq_n_u8 0x20))) 0 \<noteq> 0
                 then first_set_byte (vgetq_lane_u64 (vorrq_u8 (vorrq_u8 (vceqq_u8 (vld1q_u8 str p) (vdupq_n_u8 DQUOTE))
                                 (vceqq_u8 (vld1q_u8 str p) (vdupq_n_u8 BSLASH)))
                       (vcltq_u8 (vld1q_u8 str p) (vdupq_n_u8 0x20))) 0) 0 else None) = None"
            by (simp only: am low_def [symmetric] None if_cancel)
          show "(if vgetq_lane_u64 (vorrq_u8 (vorrq_u8 (vceqq_u8 (vld1q_u8 str p) (vdupq_n_u8 DQUOTE))
                                 (vceqq_u8 (vld1q_u8 str p) (vdupq_n_u8 BSLASH)))
                       (vcltq_u8 (vld1q_u8 str p) (vdupq_n_u8 0x20))) 1 \<noteq> 0
                 then first_set_byte (vgetq_lane_u64 (vorrq_u8 (vorrq_u8 (vceqq_u8 (vld1q_u8 str p) (vdupq_n_u8 DQUOTE))
                                 (vceqq_u8 (vld1q_u8 str p) (vdupq_n_u8 BSLASH)))
                       (vcltq_u8 (vld1q_u8 str p) (vdupq_n_u8 0x20))) 1) 0 else None) = None"
            by (simp only: am high_def [symmetric] None2 if_cancel)
        qed
        with None None2 unfold sk show ?thesis by simp
      qed
    qed
  qed
qed

theorem scan_string_neon_scalar: "scan_string_neon str = scan_string_scalar str"
proof (cases "length str = 0")
  case True
  then show ?thesis
    by (simp add: scan_string_neon_def scan_string_scalar_def scan_string_scalar_loop.simps)
next
  case False
  with neon_chunks_scalar [of str 0] show ?thesis
    by (simp add: scan_string_neon_def scan_string_scalar_def neon_tail_scalar
        cong: sum.case_cong)
qed


subsection \<open>Structural characters and integers\<close>

lemma neon_structural_scalar:
  "neon_structural_loop str count i m = scalar_structural_loop str count i m"
proof (induction str count i m rule: neon_structural_loop.induct)
  case (1 str count i m)
  show ?case
    using 1
    by (subst neon_structural_loop.simps, subst scalar_structural_loop.simps)
      (simp add: Let_def)
qed

lemma scalar_structural_take:
  "count \<le> n \<Longrightarrow>
     scalar_structural_loop (take n str) count i m = scalar_structural_loop str count i m"
proof (induction str count i m rule: scalar_structural_loop.induct)
  case (1 str count i m)
  show ?case
  proof (cases "i < count")
    case True
    with "1.prems" have "take n str ! i = str ! i" by simp
    with True "1.IH" [OF True refl] "1.prems" show ?thesis
      by (subst scalar_structural_loop.simps, subst (2) scalar_structural_loop.simps)
        (simp add: Let_def)
  next
    case False
    then show ?thesis
      by (subst scalar_structural_loop.simps, subst (2) scalar_structural_loop.simps) simp
  qed
qed

lemma find_structural_neon_take:
  "find_structural_neon str = find_structural_scalar (take 16 str)"
proof (cases "length str = 0")
  case True
  then show ?thesis
    by (simp add: find_structural_neon_def find_structural_scalar_def
        scalar_structural_loop.simps)
next
  case False
  then show ?thesis
    by (simp add: find_structural_neon_def find_structural_scalar_def Let_def
        neon_structural_scalar scalar_structural_take min_def)
qed


lemma takeWhile_drop_step:
  "i < length str \<Longrightarrow> is_digit (str ! i) \<Longrightarrow>
     takeWhile is_digit (drop i str) = str ! i # takeWhile is_digit (drop (Suc i) str)"
  by (simp add: Cons_nth_drop_Suc [symmetric])

lemma takeWhile_drop_stop:
  "\<not> (i < length str \<and> is_digit (str ! i)) \<Longrightarrow> takeWhile is_digit (drop i str) = []"
  by (cases "i < length str") (simp_all add: Cons_nth_drop_Suc [symmetric])

lemma parse_int_scalar_loop_fold:
  "parse_int_scalar_loop str i r =
     (foldl add_digit r (takeWhile is_digit (drop i str)),
      i + length (takeWhile is_digit (drop i str)))"
proof (induction str i r rule: parse_int_scalar_loop.induct)
  case (1 str i r)
  show ?case
  proof (cases "i < length str \<and> is_digit (str ! i)")
    case True
    then have c: "i < length str \<and> 0x30 \<le> str ! i \<and> str ! i \<le> 0x39"
      by (simp add: is_digit_def)
    from True have t: "takeWhile is_digit (drop i str)
        = str ! i # takeWhile is_digit (drop (Suc i) str)"
      by (simp add: takeWhile_drop_step)
    from "1.IH" [OF c] c show ?thesis
      by (subst parse_int_scalar_loop.simps) (simp add: t add_digit_def [symmetric])
  next
    case False
    then have c: "\<not> (i < length str \<and> 0x30 \<le> str ! i \<and> str ! i \<le> 0x39)"
      by (simp add: is_digit_def)
    from False have t: "takeWhile is_digit (drop i str) = []"
      by (rule takeWhile_drop_stop)
    from c show ?thesis
      by (subst parse_int_scalar_loop.simps) (auto simp: t)
  qed
qed

lemma digit_at:
  assumes "k \<le> length (takeWhile is_digit (drop p str))"
  shows "(p + k < length str \<and> is_digit (str ! (p + k)))
         \<longleftrightarrow> k < length (takeWhile is_digit (drop p str))"
proof -
  define xs where "xs = drop p str"
  define n where "n = length (takeWhile is_digit xs)"
  have le: "n \<le> length xs" by (simp add: n_def length_takeWhile_le)
  show ?thesis
  proof (cases "k < n")
    case True
    then have "takeWhile is_digit xs ! k \<in> set (takeWhile is_digit xs)"
      by (simp add: n_def)
    then have "is_digit (takeWhile is_digit xs ! k)" by (rule set_takeWhileD [THEN conjunct2])
    with True have "is_digit (xs ! k)" by (simp add: n_def takeWhile_nth)
    moreover from True le have "k < length xs" by simp
    ultimately show ?thesis using True by (simp add: xs_def n_def)
  next
    case False
    with assms have k: "k = n" by (simp add: n_def xs_def)
    have "\<not> (n < length xs \<and> is_digit (xs ! n))"
      using nth_length_takeWhile [of is_digit xs] by (auto simp: n_def)
    with k False show ?thesis by (auto simp: xs_def n_def)
  qed
qed

lemma count_digits_min:
  "digit_count \<le> length (takeWhile is_digit (drop p str)) \<Longrightarrow> digit_count < 19 \<Longrightarrow>
     count_digits str p digit_count = min 19 (length (takeWhile is_digit (drop p str)))"
proof (induction str p digit_count rule: count_digits.induct)
  case (1 str p dc)
  let ?n = "length (takeWhile is_digit (drop p str))"
  from digit_at [OF "1.prems"(1)]
  have c: "(p + dc < length str \<and> 0x30 \<le> str ! (p + dc) \<and> str ! (p + dc) \<le> 0x39)
           \<longleftrightarrow> dc < ?n"
    by (simp add: is_digit_def)
  show ?case
  proof (cases "dc < ?n")
    case True
    with c have c': "p + dc < length str \<and> 0x30 \<le> str ! (p + dc) \<and> str ! (p + dc) \<le> 0x39"
      by simp
    show ?thesis
    proof (cases "19 \<le> dc + 1")
      case True
      with c' \<open>dc < ?n\<close> "1.prems" show ?thesis
        by (subst count_digits.simps) simp
    next
      case False
      with "1.IH" [OF c' False] True c' show ?thesis
        by (subst count_digits.simps) simp
    qed
  next
    case False
    with c "1.prems" show ?thesis
      by (subst count_digits.simps) auto
  qed
qed

lemma parse_int_neon_loop_fold:
  "p + digit_count \<le> length str \<Longrightarrow>
     parse_int_neon_loop str p digit_count i r
       = foldl add_digit r (take (digit_count - i) (drop (p + i) str))"
proof (induction str p digit_count i r rule: parse_int_neon_loop.induct)
  case (1 str p dc i r)
  show ?case
  proof (cases "i < dc")
    case True
    with "1.prems" have l: "p + i < length str" by simp
    from True have d: "dc - i = Suc (dc - (i + 1))" by simp
    have t: "take (dc - i) (drop (p + i) str)
        = str ! (p + i) # take (dc - (i + 1)) (drop (p + (i + 1)) str)"
      using l by (simp only: d) (simp add: Cons_nth_drop_Suc [symmetric])
    from "1.IH" [OF True "1.prems"] True show ?thesis
      by (subst parse_int_neon_loop.simps) (simp only: t, simp add: add_digit_def)
  next
    case False
    then show ?thesis
      by (subst parse_int_neon_loop.simps) simp
  qed
qed

lemma parse_int_neon_scalar:
  assumes "digit_run str \<le> 19" "has_sign str \<longrightarrow> 0 < digit_run str"
  shows "parse_int_neon str = parse_int_scalar str"
proof (cases "str = []")
  case True
  then show ?thesis
    by (simp add: parse_int_neon_def parse_int_scalar_def parse_int_scalar_loop.simps)
next
  case False
  define neg where "neg = (str ! 0 = 0x2D)"
  define p where "p = (if neg then 1 else 0 :: nat)"
  define ds where "ds = takeWhile is_digit (drop p str)"
  from False have hs: "has_sign str = neg"
    by (simp add: has_sign_def neg_def hd_conv_nth)
  then have n: "digit_run str = length ds"
    by (simp add: digit_run_def ds_def p_def)
  have cd: "count_digits str p 0 = length ds"
    using count_digits_min [of 0 p str] assms(1) by (simp add: n ds_def)
  from False have pl: "p \<le> length str"
    by (cases str) (simp_all add: p_def)
  have le: "p + length ds \<le> length str"
    using length_takeWhile_le [of is_digit "drop p str"] pl
    by (simp add: ds_def)
  have tk: "take (length ds) (drop p str) = ds"
    unfolding ds_def by (rule takeWhile_eq_take [symmetric])
  have sc: "parse_int_scalar str = (if neg then - foldl add_digit 0 ds else foldl add_digit 0 ds,
      p + length ds)"
    using False
    by (simp add: parse_int_scalar_def parse_int_scalar_loop_fold neg_def [symmetric]
        p_def [symmetric] ds_def [symmetric] Let_def)
       (simp add: p_def ds_def)
  show ?thesis
  proof (cases "length ds = 0")
    case True
    with assms(2) hs n have "\<not> neg" by simp
    with True False cd sc show ?thesis
      by (simp add: parse_int_neon_def neg_def [symmetric] p_def)
  next
    case False
    with \<open>str \<noteq> []\<close> cd sc parse_int_neon_loop_fold [OF le, of 0 0] tk show ?thesis
      by (simp add: parse_int_neon_def neg_def [symmetric] p_def [symmetric] Let_def)
  qed
qed

text \<open>
  Where the NEON kernels and the scalar kernels agree.
  \<^verbatim>\<open>scan_string_neon\<close> returns what \<^verbatim>\<open>scan_string_scalar\<close> returns on every slice.
  \<^verbatim>\<open>find_structural_neon\<close> looks at 16 bytes where the scalar kernel looks at 64: its count and
  mask are those of the scalar kernel on the first 16 bytes, hence the same on a slice of at
  most 16 bytes. \<^verbatim>\<open>parse_int_neon\<close> reads at most 19 digits and consumes nothing when no digit
  follows the sign: it returns the scalar value and consumed count when the run of digits
  has at most 19 digits and a minus sign is followed by a digit.
\<close>

theorem neon_kernels_agree_with_scalar:
  "scan_string_neon str = scan_string_scalar str
   \<and> find_structural_neon str = find_structural_scalar (take 16 str)
   \<and> (length str \<le> 16 \<longrightarrow> find_structural_neon str = find_structural_scalar str)
   \<and> (digit_run str \<le> 19 \<and> (has_sign str \<longrightarrow> 0 < digit_run str)
        \<longrightarrow> parse_int_neon str = parse_int_scalar str)"
proof (intro conjI impI)
  show "scan_string_neon str = scan_string_scalar str"
    by (rule scan_string_neon_scalar)
  show t: "find_structural_neon str = find_structural_scalar (take 16 str)"
    by (rule find_structural_neon_take)
  show "find_structural_neon str = find_structural_scalar str" if "length str \<le> 16"
    using t that by simp
  show "parse_int_neon str = parse_int_scalar str"
    if "digit_run str \<le> 19 \<and> (has_sign str \<longrightarrow> 0 < digit_run str)"
    using that by (intro parse_int_neon_scalar) simp_all
qed

theorem neon_kernels_agree_with_scalar_witness:
  "scan_string_neon minus_42 = scan_string_scalar minus_42
   \<and> find_structural_neon minus_42 = find_structural_scalar minus_42
   \<and> find_structural_scalar minus_42 = (4, 8)
   \<and> parse_int_neon minus_42 = parse_int_scalar minus_42
   \<and> parse_int_scalar minus_42 = (- 42, 3)"
proof -
  have l: "length minus_42 \<le> 16"
    by (simp add: minus_42_def bytes_of_def)
  have d: "digit_run minus_42 = 2" "has_sign minus_42"
    by (simp_all add: minus_42_def bytes_of_def digit_run_def has_sign_def is_digit_def)
  have f: "find_structural_scalar minus_42 = (4, 8)"
    by (simp add: minus_42_def bytes_of_def kernel_simps Let_def)
  have s: "parse_int_scalar minus_42 = (- 42, 3)"
    by (simp add: minus_42_def bytes_of_def kernel_simps Let_def)
  from neon_kernels_agree_with_scalar [of minus_42] l d f s show ?thesis
    by simp
qed

text \<open>
  C3. The claim: on every slice each SIMD variant of a kernel returns what the scalar
  kernel returns, for \<^verbatim>\<open>find_structural\<close> the same count and mask, for \<^verbatim>\<open>parse_int\<close> the same
  value and consumed count. The NEON kernels of \<^verbatim>\<open>simd_arm64.c\<close>, which \<^verbatim>\<open>json_init\<close> installs
  on a CPU with NEON, do not: on sixteen letters followed by an opening brace
  \<^verbatim>\<open>find_structural_scalar\<close> reports 17 bytes and bit 16 of the mask,
  \<^verbatim>\<open>find_structural_neon\<close> 16 bytes and an empty mask; on a lone minus sign
  \<^verbatim>\<open>parse_int_scalar\<close> consumes one byte and \<^verbatim>\<open>parse_int_neon\<close> none; on nineteen zeros
  followed by the digit 1 the scalar kernel returns 1 and consumes 20 bytes, the NEON
  kernel returns 0 and consumes 19.
\<close>

theorem neon_kernels_differ_from_scalar:
  "find_structural_scalar sixteen_letters_and_brace = (17, 0x10000)
   \<and> find_structural_neon sixteen_letters_and_brace = (16, 0)
   \<and> parse_int_scalar minus_sign = (0, 1)
   \<and> parse_int_neon minus_sign = (0, 0)
   \<and> parse_int_scalar twenty_digits = (1, 20)
   \<and> parse_int_neon twenty_digits = (0, 19)"
proof (intro conjI)
  show "find_structural_scalar sixteen_letters_and_brace = (17, 0x10000)"
    by (simp add: sixteen_letters_and_brace_def bytes_of_def kernel_simps Let_def)
  show "find_structural_neon sixteen_letters_and_brace = (16, 0)"
    by (simp add: sixteen_letters_and_brace_def bytes_of_def kernel_simps Let_def)
  show "parse_int_scalar minus_sign = (0, 1)"
    by (simp add: minus_sign_def bytes_of_def kernel_simps Let_def)
  show "parse_int_neon minus_sign = (0, 0)"
    by (simp add: minus_sign_def bytes_of_def kernel_simps Let_def)
  show "parse_int_scalar twenty_digits = (1, 20)"
    by (simp add: twenty_digits_def bytes_of_def kernel_simps Let_def)
  show "parse_int_neon twenty_digits = (0, 19)"
    by (simp add: twenty_digits_def bytes_of_def kernel_simps Let_def)
qed

section \<open>Frame and depth limit of the parser\<close>

subsection \<open>Contexts that differ in the depth limit only\<close>

text \<open>
  Two runs of the parser on contexts that agree in every field but \<open>max_depth\<close> stay in
  step in every function that does not read that field.
\<close>

definition sim :: "parser_ctx \<Rightarrow> parser_ctx \<Rightarrow> bool" where
  "sim c c' \<longleftrightarrow> input c' = input c \<and> len c' = len c \<and> pos c' = pos c \<and> line c' = line c
     \<and> col c' = col c \<and> doc c' = doc c \<and> flags c' = flags c \<and> depth c' = depth c"

lemma sim_fields:
  "sim c c' \<Longrightarrow> input c' = input c" "sim c c' \<Longrightarrow> len c' = len c"
  "sim c c' \<Longrightarrow> pos c' = pos c" "sim c c' \<Longrightarrow> line c' = line c"
  "sim c c' \<Longrightarrow> col c' = col c" "sim c c' \<Longrightarrow> doc c' = doc c"
  "sim c c' \<Longrightarrow> flags c' = flags c" "sim c c' \<Longrightarrow> depth c' = depth c"
  by (simp_all add: sim_def)

lemma sim_advance: "sim c c' \<Longrightarrow> sim (advance n c) (advance n c')"
  by (simp add: sim_def advance_def)










subsection \<open>The steps of \<open>parse_number\<close>\<close>

text \<open>
  \<open>parse_number\<close> is a scan of the token, one allocation and the conversion of the text.
\<close>

definition number_scan :: "byte list \<Rightarrow> nat \<Rightarrow> nat \<Rightarrow> (nat \<times> bool) option" where
  "number_scan inp n start =
     (let i = (if start < n \<and> inp ! start = 0x2D then start + 1 else start)
      in if i \<ge> n \<or> \<not> isdigit (inp ! i) then None
         else if inp ! i = 0x30 \<and> i + 1 < n \<and> isdigit (inp ! (i + 1)) then None
         else
           (let i = digits_end inp n i;
                has_frac = (i < n \<and> inp ! i = 0x2E)
            in if has_frac \<and> (i + 1 \<ge> n \<or> \<not> isdigit (inp ! (i + 1))) then None
               else
                 (let i = (if has_frac then digits_end inp n (i + 1) else i);
                      has_exp = (i < n \<and> (inp ! i = 0x65 \<or> inp ! i = 0x45));
                      j = (if has_exp
                           then (if i + 1 < n \<and> (inp ! (i + 1) = 0x2B \<or> inp ! (i + 1) = 0x2D)
                                 then i + 2 else i + 1)
                           else i)
                  in if has_exp \<and> (j \<ge> n \<or> \<not> isdigit (inp ! j)) then None
                     else Some (if has_exp then digits_end inp n j else i, has_frac \<or> has_exp))))"

definition number_node :: "host \<Rightarrow> byte list \<Rightarrow> bool \<Rightarrow> json_val \<Rightarrow> json_val option" where
  "number_node h tok is_float val =
     (if is_float then
        (let (d, erange) = strtod h tok
         in if erange then None else Some (set_float_val (val_set_type val JSON_FLOAT) d))
      else
        (let (ll, erange) = strtoll tok
         in if erange then
              (let (d, erange') = strtod h tok
               in Some (set_float_val (val_set_type val JSON_FLOAT) d))
            else Some (val_set_payload (val_set_type val JSON_INT)
                         (word_of_int ll AND 0x0FFFFFFFFFFFFFFF))))"

lemma parse_number_eq:
  "parse_number h ctx =
     (case number_scan (input ctx) (len ctx) (pos ctx) of
        None \<Rightarrow> fail_at JSON_ERROR_NUMBER ctx
      | Some (i, is_float) \<Rightarrow>
          (case ctx_alloc_val h ctx of
             (Ok val, ctx') \<Rightarrow>
               (case number_node h (drop (pos ctx) (input ctx)) is_float val of
                  None \<Rightarrow> fail_at JSON_ERROR_NUMBER ctx'
                | Some v \<Rightarrow> (Ok v, advance (i - pos ctx) ctx'))
           | (Fail e, ctx') \<Rightarrow> (Fail e, ctx')
           | (No_mem, ctx') \<Rightarrow> (No_mem, ctx')
           | (No_return, ctx') \<Rightarrow> (No_return, ctx')))"
proof -
  define inp where "inp = input ctx"
  define n where "n = len ctx"
  define start where "start = pos ctx"
  define i0 where "i0 = (if start < n \<and> inp ! start = 0x2D then start + 1 else start)"
  define i1 where "i1 = digits_end inp n i0"
  define has_frac where "has_frac = (i1 < n \<and> inp ! i1 = 0x2E)"
  define i2 where "i2 = (if has_frac then digits_end inp n (i1 + 1) else i1)"
  define has_exp where "has_exp = (i2 < n \<and> (inp ! i2 = 0x65 \<or> inp ! i2 = 0x45))"
  define j where "j = (if has_exp
                           then (if i2 + 1 < n \<and> (inp ! (i2 + 1) = 0x2B \<or> inp ! (i2 + 1) = 0x2D)
                                 then i2 + 2 else i2 + 1)
                           else i2)"
  define i3 where "i3 = (if has_exp then digits_end inp n j else i2)"
  define is_float where "is_float = (has_frac \<or> has_exp)"
  define tail where "tail =
     (case ctx_alloc_val h ctx of
                             (Ok val, ctx') \<Rightarrow>
                               if is_float then
                                 (let (d, erange) = strtod h (drop start inp)
                                  in if erange then fail_at JSON_ERROR_NUMBER ctx'
                                     else (Ok (set_float_val (val_set_type val JSON_FLOAT) d),
                                           advance (i3 - start) ctx'))
                               else
                                 (let (ll, erange) = strtoll (drop start inp)
                                  in if erange then
                                       (let (d, erange') = strtod h (drop start inp)
                                        in (Ok (set_float_val (val_set_type val JSON_FLOAT) d),
                                            advance (i3 - start) ctx'))
                                     else
                                       (Ok (val_set_payload (val_set_type val JSON_INT)
                                              (word_of_int ll AND 0x0FFFFFFFFFFFFFFF)),
                                        advance (i3 - start) ctx'))
                           | (r, ctx') \<Rightarrow> (r, ctx'))"
  have L: "parse_number h ctx =
     (if i0 \<ge> n \<or> \<not> isdigit (inp ! i0) then fail_at JSON_ERROR_NUMBER ctx
      else if inp ! i0 = 0x30 \<and> i0 + 1 < n \<and> isdigit (inp ! (i0 + 1))
        then fail_at JSON_ERROR_NUMBER ctx
      else if has_frac \<and> (i1 + 1 \<ge> n \<or> \<not> isdigit (inp ! (i1 + 1)))
        then fail_at JSON_ERROR_NUMBER ctx
      else if has_exp \<and> (j \<ge> n \<or> \<not> isdigit (inp ! j))
        then fail_at JSON_ERROR_NUMBER ctx
      else tail)"
    unfolding parse_number_def Let_def tail_def is_float_def i3_def j_def has_exp_def i2_def
      has_frac_def i1_def i0_def start_def n_def inp_def
    by (rule refl)
  have S: "number_scan (input ctx) (len ctx) (pos ctx) =
     (if i0 \<ge> n \<or> \<not> isdigit (inp ! i0) then None
      else if inp ! i0 = 0x30 \<and> i0 + 1 < n \<and> isdigit (inp ! (i0 + 1)) then None
      else if has_frac \<and> (i1 + 1 \<ge> n \<or> \<not> isdigit (inp ! (i1 + 1))) then None
      else if has_exp \<and> (j \<ge> n \<or> \<not> isdigit (inp ! j)) then None
      else Some (i3, is_float))"
    unfolding number_scan_def Let_def is_float_def i3_def j_def has_exp_def i2_def
      has_frac_def i1_def i0_def start_def n_def inp_def
    by (rule refl)
  have T: "tail = (case ctx_alloc_val h ctx of
             (Ok val, ctx') \<Rightarrow>
               (case number_node h (drop start inp) is_float val of
                  None \<Rightarrow> fail_at JSON_ERROR_NUMBER ctx'
                | Some v \<Rightarrow> (Ok v, advance (i3 - start) ctx'))
           | (Fail e, ctx') \<Rightarrow> (Fail e, ctx')
           | (No_mem, ctx') \<Rightarrow> (No_mem, ctx')
           | (No_return, ctx') \<Rightarrow> (No_return, ctx'))"
    unfolding tail_def number_node_def
    by (simp split: prod.splits presult.splits)
  define B1 where "B1 = (i0 \<ge> n \<or> \<not> isdigit (inp ! i0))"
  define B2 where "B2 = (inp ! i0 = 0x30 \<and> i0 + 1 < n \<and> isdigit (inp ! (i0 + 1)))"
  define B3 where "B3 = (has_frac \<and> (i1 + 1 \<ge> n \<or> \<not> isdigit (inp ! (i1 + 1))))"
  define B4 where "B4 = (has_exp \<and> (j \<ge> n \<or> \<not> isdigit (inp ! j)))"
  note L' = L [folded B1_def B2_def B3_def B4_def]
  note S' = S [folded B1_def B2_def B3_def B4_def]
  show ?thesis
    unfolding L' S' T [unfolded start_def inp_def] by (cases B1; cases B2; cases B3; cases B4; simp)
qed

subsection \<open>The first pass over a string token\<close>

definition measure_rel ::
  "(json_error_info + nat \<times> bool) \<times> parser_ctx \<Rightarrow> (json_error_info + nat \<times> bool) \<times> parser_ctx \<Rightarrow> bool"
  where
  "measure_rel x y \<longleftrightarrow>
     rel_prod (=) sim x y \<and> (\<forall>err cx. x = (Inl err, cx) \<longrightarrow> code err = JSON_ERROR_STRING)"

lemma sim_err:
  "sim a a' \<Longrightarrow>
     measure_rel (Inl (set_error JSON_ERROR_STRING (pos a) (line a) (col a)), a)
                 (Inl (set_error JSON_ERROR_STRING (pos a') (line a') (col a')), a')"
  by (simp add: sim_def measure_rel_def set_error_def)

lemma measure_rel_end: "sim a a' \<Longrightarrow> measure_rel (Inr x, a) (Inr x, a')"
  by (simp add: measure_rel_def)

lemma sim_parse_unicode_escape:
  "sim a a' \<Longrightarrow> rel_prod (=) sim (parse_unicode_escape a) (parse_unicode_escape a')"
  using sim_advance [of a a' 4]
  by (auto simp: parse_unicode_escape_def sim_fields split: option.splits)

lemma sim_pue_cases:
  assumes "sim a a'"
  obtains r y y' where "parse_unicode_escape a = (r, y)" "parse_unicode_escape a' = (r, y')" "sim y y'"
  using sim_parse_unicode_escape [OF assms]
  by (cases "parse_unicode_escape a"; cases "parse_unicode_escape a'") auto

lemma string_measure_rel:
  "sim ctx c' \<Longrightarrow> measure_rel (string_measure ctx slen esc) (string_measure c' slen esc)"
proof (induction ctx slen esc arbitrary: c' rule: string_measure.induct)
  case (1 ctx slen esc)
  note s = sim_fields [OF "1.prems"]
  note sm = string_measure.simps [of ctx slen esc] string_measure.simps [of c' slen esc]
  have adv: "sim (advance k ctx) (advance k c')" for k
    using "1.prems" by (rule sim_advance)
  show ?case
  proof (cases "pos ctx < len ctx")
    case False
    with s measure_rel_end [OF "1.prems"] show ?thesis by (simp add: sm)
  next
    case lt: True
    show ?thesis
    proof (cases "input ctx ! pos ctx = DQUOTE")
      case True
      with lt s measure_rel_end [OF "1.prems"] show ?thesis by (simp add: sm)
    next
      case nq: False
      show ?thesis
      proof (cases "input ctx ! pos ctx = BSLASH")
        case nb: False
        show ?thesis
        proof (cases "input ctx ! pos ctx < 0x20")
          case True
          with lt nq nb s sim_err [OF "1.prems"] show ?thesis by (simp add: sm)
        next
          case False
          from "1.IH"(4) [OF lt refl nq nb False adv] lt nq nb False s show ?thesis
            by (simp add: sm)
        qed
      next
        case bs: True
        let ?c1 = "advance 1 ctx"
        let ?d1 = "advance 1 c'"
        note s1 = sim_fields [OF adv [of 1]]
        show ?thesis
        proof (cases "len ?c1 \<le> pos ?c1")
          case True
          with lt nq bs s s1 sim_err [OF adv [of 1]] show ?thesis
            by (simp add: sm Let_def)
        next
          case in1: False
          show ?thesis
          proof (cases "simple_escape (input ?c1 ! pos ?c1)")
            case se: True
            have a2: "sim (advance 1 ?c1) (advance 1 ?d1)"
              using adv by (rule sim_advance)
            from "1.IH"(1) [OF lt refl nq bs refl in1 refl se a2] lt nq bs in1 se s s1
            show ?thesis
              by (simp add: sm Let_def)
          next
            case ns: False
            show ?thesis
            proof (cases "input ?c1 ! pos ?c1 = 0x75")
              case False
              with lt nq bs in1 ns s s1 sim_err [OF adv [of 1]] show ?thesis
                by (simp add: sm Let_def)
            next
              case u: True
              let ?c2 = "advance 1 ?c1"
              let ?d2 = "advance 1 ?d1"
              have a2: "sim ?c2 ?d2" using adv by (rule sim_advance)
              from sim_pue_cases [OF a2] obtain rp y y'
                where pu: "parse_unicode_escape ?c2 = (rp, y)"
                  and pu': "parse_unicode_escape ?d2 = (rp, y')" and sy: "sim y y'"
                by blast
              note ys = sim_fields [OF sy]
              show ?thesis
              proof (cases rp)
                case None
                with lt nq bs in1 ns u pu pu' s s1 sim_err [OF sy] show ?thesis
                  by (simp add: sm Let_def)
              next
                case (Some cp)
                show ?thesis
                proof (cases "0xD800 \<le> cp \<and> cp \<le> 0xDBFF")
                  case single: False
                  from "1.IH"(3) [OF lt refl nq bs refl in1 refl ns u pu [symmetric] Some single sy]
                    lt nq bs in1 ns u pu pu' Some s s1 ys
                  show ?thesis
                    by (simp add: sm Let_def single)
                next
                  case pair: True
                  let ?bad = "len y < pos y + 2 \<or> input y ! pos y \<noteq> BSLASH \<or>
                              input y ! (pos y + 1) \<noteq> 0x75"
                  show ?thesis
                  proof (cases ?bad)
                    case True
                    with lt nq bs in1 ns u pu pu' Some s s1 ys sim_err [OF sy] show ?thesis
                      by (auto simp: sm Let_def pair)
                  next
                    case good: False
                    let ?c4 = "advance 2 y"
                    let ?d4 = "advance 2 y'"
                    have a4: "sim ?c4 ?d4" using sy by (rule sim_advance)
                    from sim_pue_cases [OF a4] obtain rp2 ya ya'
                      where pu2: "parse_unicode_escape ?c4 = (rp2, ya)"
                        and pu2': "parse_unicode_escape ?d4 = (rp2, ya')" and sya: "sim ya ya'"
                      by blast
                    show ?thesis
                    proof (cases rp2)
                      case None
                      with lt nq bs in1 ns u pu pu' Some good pu2 pu2' s s1 ys
                        sim_err [OF sya]
                      show ?thesis
                        by (auto simp: sm Let_def pair)
                    next
                      case some2: (Some cp2)
                      show ?thesis
                      proof (cases "cp2 < 0xDC00 \<or> 0xDFFF < cp2")
                        case True
                        with lt nq bs in1 ns u pu pu' Some good pu2 pu2' some2 s s1 ys
                          sim_err [OF sya]
                        show ?thesis
                          by (auto simp: sm Let_def pair)
                      next
                        case lo_ok: False
                        from "1.IH"(2) [OF lt refl nq bs refl in1 refl ns u pu [symmetric]
                                Some pair good pu2 [symmetric] some2 lo_ok sya]
                          lt nq bs in1 ns u pu pu' Some good pu2 pu2' some2 s s1 ys
                        show ?thesis
                          by (auto simp: sm Let_def pair lo_ok)
                      qed
                    qed
                  qed
                qed
              qed
            qed
          qed
        qed
      qed
    qed
  qed
qed


lemma string_measure_error_code:
  "string_measure ctx slen esc = (Inl err, cx) \<Longrightarrow> code err = JSON_ERROR_STRING"
  using string_measure_rel [of ctx ctx slen esc] by (simp add: measure_rel_def sim_def)

subsection \<open>Nesting depth and the fields a parse keeps\<close>

text \<open>
  \<open>depth_of\<close> is the nesting depth of a value: 0 for a scalar, one more than the deepest
  element for an array or an object (a member of an object is its key node, whose child is
  the value of the member). \<open>frame\<close> relates a context to a later one with the same input,
  length, flags and depth limit.
\<close>

primrec depth_of :: "json_val \<Rightarrow> nat" and slot_depth :: "slot \<Rightarrow> json_type \<Rightarrow> nat" where
  "depth_of (Val a tp w) = slot_depth w (tp AND JSON_TAG_MASK)"
| "slot_depth (Child ns) t =
     (if t = JSON_ARRAY \<or> t = JSON_OBJECT then 1 else 0) + Max (set (0 # map depth_of ns))"
| "slot_depth (Str_ptr bs) t = 0"
| "slot_depth (Float_val d) t = 0"

definition frame :: "parser_ctx \<Rightarrow> parser_ctx \<Rightarrow> bool" where
  "frame c c1 \<longleftrightarrow> input c1 = input c \<and> len c1 = len c \<and> flags c1 = flags c
     \<and> max_depth c1 = max_depth c"

definition leaf_result :: "parser_ctx \<Rightarrow> json_val presult \<times> parser_ctx \<Rightarrow> bool" where
  "leaf_result c x \<longleftrightarrow>
     frame c (snd x) \<and> depth (snd x) = depth c \<and>
     (\<forall>v. fst x = Ok v \<longrightarrow> depth_of v = 0 \<and> val_get_type v \<noteq> JSON_ARRAY \<and> val_get_type v \<noteq> JSON_OBJECT) \<and>
     (\<forall>e. fst x = Fail e \<longrightarrow> code e \<noteq> JSON_ERROR_DEPTH)"

lemma frame_refl [simp]: "frame c c"
  by (simp add: frame_def)

lemma frame_trans: "frame a b \<Longrightarrow> frame b c \<Longrightarrow> frame a c"
  by (simp add: frame_def)

lemma frame_advance [simp]: "frame c (advance n c)"
  by (simp add: frame_def)

lemma skip_ws_frame: "frame c (skip_ws c) \<and> depth (skip_ws c) = depth c"
proof (induction c rule: skip_ws.induct)
  case (1 ctx)
  show ?case
  proof (cases "pos ctx < len ctx")
    case False
    then show ?thesis by (simp add: skip_ws.simps [of ctx])
  next
    case lt: True
    let ?c = "input ctx ! pos ctx"
    show ?thesis
    proof (cases "?c = 0x20 \<or> ?c = 0x09 \<or> ?c = 0x0D")
      case True
      from "1.IH"(1) [OF lt refl True] lt True show ?thesis
        by (simp add: skip_ws.simps [of ctx] frame_def)
    next
      case nw: False
      show ?thesis
      proof (cases "?c = 0x0A")
        case True
        from "1.IH"(2) [OF lt refl nw True] lt nw True show ?thesis
          by (simp add: skip_ws.simps [of ctx] frame_def)
      next
        case False
        with lt nw show ?thesis
          by (simp add: skip_ws.simps [of ctx])
      qed
    qed
  qed
qed

lemma consume_frame: "consume c b = (r, c1) \<Longrightarrow> frame c c1 \<and> depth c1 = depth c"
  using skip_ws_frame [of c]
  by (auto simp: consume_def Let_def frame_def split: if_splits)

lemma peek_frame: "peek c = (r, c1) \<Longrightarrow> frame c c1 \<and> depth c1 = depth c"
  using skip_ws_frame [of c]
  by (auto simp: peek_def Let_def frame_def split: if_splits)

lemma ctx_alloc_val_frame:
  "ctx_alloc_val h c = (r, c1) \<Longrightarrow> c1 = c\<lparr> doc := doc c1 \<rparr>"
  by (auto simp: ctx_alloc_val_def split: option.splits prod.splits)

lemma ctx_alloc_val_frame':
  assumes "ctx_alloc_val h c = (r, c1)"
  shows "frame c c1 \<and> depth c1 = depth c \<and> pos c1 = pos c"
proof -
  from ctx_alloc_val_frame [OF assms] obtain d where "c1 = c\<lparr> doc := d \<rparr>" ..
  then show ?thesis by (simp add: frame_def)
qed

lemma ctx_alloc_val_result:
  "ctx_alloc_val h c = (r, c1) \<Longrightarrow> (\<exists>a. r = Ok (Val a 0 (Child []))) \<or> r = No_mem \<or> r = No_return"
  using ctx_alloc_val_cases [of h c r c1] by auto

lemma tag_of_type:
  "t \<in> {JSON_NULL, JSON_FALSE, JSON_TRUE, JSON_INT, JSON_FLOAT, JSON_STRING_SHORT, JSON_STRING_LONG}
   \<Longrightarrow> val_get_type (val_set_type (Val a 0 w) t) = t"
  by (auto simp: node_defs tag_defs)

lemma low_nibble:
  "(t OR push_bit 4 x) AND 0x0F = t AND (0x0F :: u64)"
  "(t OR (push_bit 4 x AND m)) AND 0x0F = t AND (0x0F :: u64)"
  unfolding mask_consts by (rule bit_word_eqI; auto simp: bit_simps)+

lemma leaf_literal:
  assumes al: "ctx_alloc_val h (advance n c) = (r, c1)"
    and t: "t \<in> {JSON_NULL, JSON_FALSE, JSON_TRUE}"
  shows "leaf_result c (case (r, c1) of (Ok val, ctx') \<Rightarrow> (Ok (val_set_type val t), ctx')
                        | (Fail e, ctx') \<Rightarrow> (Fail e, ctx') | (No_mem, ctx') \<Rightarrow> (No_mem, ctx')
                        | (No_return, ctx') \<Rightarrow> (No_return, ctx'))"
  using ctx_alloc_val_frame' [OF al] ctx_alloc_val_result [OF al] t
  by (auto simp: leaf_result_def frame_def node_defs tag_defs)

lemma leaf_fail_at: "e \<noteq> JSON_ERROR_DEPTH \<Longrightarrow> leaf_result c (fail_at e c)"
  by (simp add: leaf_result_def fail_at_def set_error_def)

lemma parse_null_leaf: "leaf_result c (parse_null h c)"
proof -
  obtain r c1 where al: "ctx_alloc_val h (advance 4 c) = (r, c1)"
    by (cases "ctx_alloc_val h (advance 4 c)") auto
  from leaf_literal [OF al, of JSON_NULL] al show ?thesis
    by (simp add: parse_null_def leaf_fail_at)
qed

lemma parse_true_leaf: "leaf_result c (parse_true h c)"
proof -
  obtain r c1 where al: "ctx_alloc_val h (advance 4 c) = (r, c1)"
    by (cases "ctx_alloc_val h (advance 4 c)") auto
  from leaf_literal [OF al, of JSON_TRUE] al show ?thesis
    by (simp add: parse_true_def leaf_fail_at)
qed

lemma parse_false_leaf: "leaf_result c (parse_false h c)"
proof -
  obtain r c1 where al: "ctx_alloc_val h (advance 5 c) = (r, c1)"
    by (cases "ctx_alloc_val h (advance 5 c)") auto
  from leaf_literal [OF al, of JSON_FALSE] al show ?thesis
    by (simp add: parse_false_def leaf_fail_at)
qed

lemma number_node_leaf:
  "number_node h tok is_float (Val a 0 (Child [])) = Some v \<Longrightarrow>
     depth_of v = 0 \<and> val_get_type v \<noteq> JSON_ARRAY \<and> val_get_type v \<noteq> JSON_OBJECT"
  by (auto simp: number_node_def node_defs tag_defs low_nibble split: if_splits prod.splits)

lemma parse_number_leaf: "leaf_result c (parse_number h c)"
proof (cases "number_scan (input c) (len c) (pos c)")
  case None
  then show ?thesis by (simp add: parse_number_eq leaf_fail_at)
next
  case (Some p)
  obtain i is_float where p: "p = (i, is_float)" by (cases p)
  obtain r c1 where al: "ctx_alloc_val h c = (r, c1)"
    by (cases "ctx_alloc_val h c") auto
  note f = ctx_alloc_val_frame' [OF al]
  from ctx_alloc_val_result [OF al] show ?thesis
  proof (elim disjE exE)
    fix a assume r: "r = Ok (Val a 0 (Child []))"
    show ?thesis
    proof (cases "number_node h (drop (pos c) (input c)) is_float (Val a 0 (Child []))")
      case None
      with Some p al r f show ?thesis
        by (simp add: parse_number_eq leaf_result_def fail_at_def set_error_def)
    next
      case v: (Some v)
      from number_node_leaf [OF v] Some p al r f v show ?thesis
        by (simp add: parse_number_eq leaf_result_def frame_def)
    qed
  next
    assume "r = No_mem"
    with Some p al f show ?thesis by (simp add: parse_number_eq leaf_result_def)
  next
    assume "r = No_return"
    with Some p al f show ?thesis by (simp add: parse_number_eq leaf_result_def)
  qed
qed


lemma store_bytes_low_nibble:
  assumes "length bs \<le> 7"
  shows "store_bytes w 1 bs AND 0x0F = w AND 0x0F"
proof -
  have "byte_of_word (store_bytes w 1 bs) 0 = byte_of_word w 0"
    using assms by (simp add: byte_of_store_bytes)
  then show ?thesis
    using low_byte_views(1) [of "store_bytes w 1 bs"] low_byte_views(1) [of w] by simp
qed

lemma string_measure_frame:
  assumes "string_measure c s e = (r, c2)"
  shows "frame c c2 \<and> depth c2 = depth c \<and> doc c2 = doc c"
proof -
  from string_measure_post [OF assms] have "c2 = c\<lparr> pos := pos c2, col := col c2 \<rparr>"
    by (simp add: measure_post_def)
  then obtain p k where "c2 = c\<lparr> pos := p, col := k \<rparr>" by blast
  then show ?thesis by (simp add: frame_def)
qed

lemma parse_string_leaf: "leaf_result c (parse_string h c)"
proof (cases "pos c \<ge> len c \<or> input c ! pos c \<noteq> DQUOTE")
  case True
  then show ?thesis by (auto simp: parse_string_def leaf_fail_at)
next
  case q: False
  obtain r c2 where sm: "string_measure (advance 1 c) 0 False = (r, c2)"
    by (cases "string_measure (advance 1 c) 0 False") auto
  from string_measure_frame [OF sm] have f2: "frame c c2" "depth c2 = depth c"
    by (simp_all add: frame_def)
  show ?thesis
  proof (cases r)
    case (Inl e)
    from string_measure_error_code [OF sm [unfolded Inl]] q sm Inl f2 show ?thesis
      by (simp add: parse_string_def Let_def leaf_result_def)
  next
    case (Inr p)
    obtain slen esc where p: "p = (slen, esc)" by (cases p)
    show ?thesis
    proof (cases "pos c2 \<ge> len c2")
      case True
      with q sm Inr p f2 show ?thesis
        by (simp add: parse_string_def Let_def leaf_result_def fail_at_def set_error_def)
    next
      case closed: False
      obtain ra c4 where al: "ctx_alloc_val h (advance 1 c2) = (ra, c4)"
        by (cases "ctx_alloc_val h (advance 1 c2)") auto
      from ctx_alloc_val_frame' [OF al] f2 have f4: "frame c c4" "depth c4 = depth c"
        by (simp_all add: frame_def)
      have f4d: "frame c (c4\<lparr> doc := d \<rparr>)" "depth (c4\<lparr> doc := d \<rparr>) = depth c" for d
        using f4 by (simp_all add: frame_def)
      from ctx_alloc_val_result [OF al] show ?thesis
      proof (elim disjE exE)
        fix a assume ra: "ra = Ok (Val a 0 (Child []))"
        show ?thesis
        proof (cases "\<not> esc \<and> slen \<le> JSON_SHORT_STR_MAX")
          case short: True
          then have l7: "length (take slen (drop (pos c + 1) (input c4))) \<le> 7"
            by (simp add: JSON_SHORT_STR_MAX_def min_def)
          from q sm Inr p closed al ra short f4 show ?thesis
            by (simp add: parse_string_def Let_def leaf_result_def node_defs tag_defs
                store_bytes_low_nibble [OF l7, simplified] low_nibble)
        next
          case long: False
          show ?thesis
          proof (cases "arena_alloc_string h (doc c4) slen")
            case None
            with q sm Inr p closed al ra long f4 show ?thesis
              by (auto simp: parse_string_def Let_def leaf_result_def)
          next
            case (Some bd)
            obtain b d where bd: "bd = (b, d)" by (cases bd)
            from q sm Inr p closed al ra long f4 f4d Some bd show ?thesis
              by (cases b) (auto simp: parse_string_def Let_def leaf_result_def node_defs tag_defs
                  low_nibble)
          qed
        qed
      next
        assume "ra = No_mem"
        with q sm Inr p closed al f4 show ?thesis
          by (simp add: parse_string_def Let_def leaf_result_def)
      next
        assume "ra = No_return"
        with q sm Inr p closed al f4 show ?thesis
          by (simp add: parse_string_def Let_def leaf_result_def)
      qed
    qed
  qed
qed



subsection \<open>The input buffer\<close>

lemma frame_depth_update [simp]:
  "frame c (c1\<lparr> depth := k \<rparr>) = frame c c1" "frame (c\<lparr> depth := k \<rparr>) c1 = frame c c1"
  by (simp_all add: frame_def)

lemma leaf_frame:
  "leaf_result c x \<Longrightarrow> x = (r, c1) \<Longrightarrow> frame c c1"
  by (simp add: leaf_result_def)

lemmas leaf_frames =
  leaf_frame [OF parse_null_leaf] leaf_frame [OF parse_true_leaf] leaf_frame [OF parse_false_leaf]
  leaf_frame [OF parse_number_leaf] leaf_frame [OF parse_string_leaf]

lemma fail_at_frame: "fail_at e c = (r, c1) \<Longrightarrow> frame c c1"
  by (auto simp: fail_at_def)

lemma alloc_frame: "ctx_alloc_val h c = (r, c1) \<Longrightarrow> frame c c1"
  by (simp add: ctx_alloc_val_frame')

lemma peek_frame1: "peek c = (r, c1) \<Longrightarrow> frame c c1"
  by (simp add: peek_frame)

lemma consume_frame1: "consume c b = (r, c1) \<Longrightarrow> frame c c1"
  by (simp add: consume_frame)

lemmas step_frames = leaf_frames fail_at_frame alloc_frame peek_frame1 consume_frame1

lemma parse_frames:
  "(\<forall>c r c1. parse_value h n c = (r, c1) \<longrightarrow> frame c c1) \<and>
   (\<forall>c r c1. parse_array h n c = (r, c1) \<longrightarrow> frame c c1) \<and>
   (\<forall>c arr elems r c1. parse_array_loop h n c arr elems = (r, c1) \<longrightarrow> frame c c1) \<and>
   (\<forall>c r c1. parse_object h n c = (r, c1) \<longrightarrow> frame c c1) \<and>
   (\<forall>c obj members r c1. parse_object_loop h n c obj members = (r, c1) \<longrightarrow> frame c c1)"
proof (induction n)
  case 0
  show ?case by simp
next
  case (Suc n)
  then have pv: "\<And>c r c1. parse_value h n c = (r, c1) \<Longrightarrow> frame c c1"
    and pa: "\<And>c r c1. parse_array h n c = (r, c1) \<Longrightarrow> frame c c1"
    and pal: "\<And>c arr elems r c1. parse_array_loop h n c arr elems = (r, c1) \<Longrightarrow> frame c c1"
    and po: "\<And>c r c1. parse_object h n c = (r, c1) \<Longrightarrow> frame c c1"
    and pol: "\<And>c obj members r c1. parse_object_loop h n c obj members = (r, c1) \<Longrightarrow> frame c c1"
    by blast+
  note steps = step_frames pv pa pal po pol
  have 1: "frame c c1" if "parse_value h (Suc n) c = (r, c1)" for c r c1
    using that
    by (auto simp: Let_def split: prod.splits if_splits dest!: steps; blast intro: frame_trans)
  have 2: "frame c c1" if "parse_array h (Suc n) c = (r, c1)" for c r c1
    using that
    by (auto simp: Let_def split: prod.splits if_splits presult.splits bool.splits
        dest!: steps; blast intro: frame_trans)
  have 3: "frame c c1" if "parse_array_loop h (Suc n) c arr elems = (r, c1)" for c arr elems r c1
    using that
    by (auto simp: Let_def split: prod.splits if_splits presult.splits bool.splits
        dest!: steps; blast intro: frame_trans)
  have 4: "frame c c1" if "parse_object h (Suc n) c = (r, c1)" for c r c1
    using that
    by (auto simp: Let_def split: prod.splits if_splits presult.splits bool.splits
        dest!: steps; blast intro: frame_trans)
  have 5: "frame c c1" if "parse_object_loop h (Suc n) c obj members = (r, c1)"
    for c obj members r c1
    using that
    by (auto simp: Let_def split: prod.splits if_splits presult.splits bool.splits
        dest!: steps; blast intro: frame_trans)
  from 1 2 3 4 5 show ?case by blast
qed

lemma parse_value_frame: "parse_value h n c = (r, c1) \<Longrightarrow> frame c c1"
  using parse_frames [of h n] by blast

lemma parse_value_input:
  assumes "parse_value h m c = (r, c1)"
  shows "input c1 = input c \<and> (\<forall>x. input (skip_ws (c1\<lparr> doc := x \<rparr>)) = input c)"
proof -
  from parse_value_frame [OF assms] have 1: "input c1 = input c" by (simp add: frame_def)
  have "input (skip_ws (c1\<lparr> doc := x \<rparr>)) = input c" for x
    using skip_ws_frame [of "c1\<lparr> doc := x \<rparr>"] 1 by (simp add: frame_def)
  with 1 show ?thesis by blast
qed

lemma parse_json_buffer:
  assumes "parse_json h g e0 json n opts = Some (d, e, json')"
  shows "json' = json"
  using assms unfolding parse_json_def Let_def
  by (auto split: option.splits prod.splits presult.splits if_splits
      dest!: parse_value_input)

text \<open>
  C10. \<open>json_parse_opts\<close> returns the caller's buffer as it was given, whatever the
  options (the flag \<open>JSON_PARSE_INSITU\<close> among them) and whether the result is a document
  or an error: every parser function hands on the field \<open>input\<close> of its context unchanged.
\<close>

theorem parse_never_mutates_input:
  "json_parse_opts h g e0 json n opts = Some (d, e, json') \<Longrightarrow> json' = json"
  by (auto simp: json_parse_opts_def split: option.splits if_splits dest: parse_json_buffer)

definition insitu_opts :: json_parse_options where
  "insitu_opts = \<lparr> opt_flags = JSON_PARSE_INSITU, opt_max_depth = 0 \<rparr>"

theorem parse_never_mutates_input_witness:
  "(\<exists>d e. json_parse_opts plain_host 0 no_error (Some (bytes_of ''[1]'')) 3 (Some insitu_opts)
             = Some (Some d, e, Some (bytes_of ''[1]''))) \<and>
   (\<exists>e. json_parse_opts plain_host 0 no_error (Some (bytes_of ''[1'')) 2 (Some insitu_opts)
             = Some (None, e, Some (bytes_of ''[1'')))"
proof -
  have 1: "\<exists>d e b. json_parse_opts plain_host 0 no_error (Some (bytes_of ''[1]'')) 3 (Some insitu_opts)
             = Some (Some d, e, b)"
    by (simp add: json_parse_opts_def insitu_opts_def JSON_PARSE_INSITU_def plain_host_def
        fuel_numeral loop_simps parse_defs arena_defs node_defs tag_defs cong: case_congs)
  have 2: "\<exists>e b. json_parse_opts plain_host 0 no_error (Some (bytes_of ''[1'')) 2 (Some insitu_opts)
             = Some (None, e, b)"
    by (simp add: json_parse_opts_def insitu_opts_def JSON_PARSE_INSITU_def plain_host_def
        fuel_numeral loop_simps parse_defs arena_defs node_defs tag_defs cong: case_congs)
  from 1 obtain d e b where a: "json_parse_opts plain_host 0 no_error (Some (bytes_of ''[1]'')) 3
      (Some insitu_opts) = Some (Some d, e, b)" by blast
  from 2 obtain e' b' where b: "json_parse_opts plain_host 0 no_error (Some (bytes_of ''[1'')) 2
      (Some insitu_opts) = Some (None, e', b')" by blast
  from parse_never_mutates_input [OF a] parse_never_mutates_input [OF b] a b
  show ?thesis by blast
qed

subsection \<open>Shape of the results\<close>

definition container :: "json_val \<Rightarrow> bool" where
  "container v \<longleftrightarrow>
     (val_get_type v = JSON_ARRAY \<or> val_get_type v = JSON_OBJECT) \<and> word2 v = Child (child v)"


lemma alloc_container:
  "ctx_alloc_val h c = (Ok v, c1) \<Longrightarrow> t = JSON_ARRAY \<or> t = JSON_OBJECT \<Longrightarrow>
     container (val_set_type v t) \<and> child (val_set_type v t) = []"
  using ctx_alloc_val_result [of h c "Ok v" c1]
  by (auto simp: container_def node_defs tag_defs)

lemma container_set_child [simp]: "container (set_child v ns) = (val_get_type v = JSON_ARRAY \<or> val_get_type v = JSON_OBJECT)"
  by (simp add: container_def node_defs)

lemma set_child_set_child [simp]: "set_child (set_child v ns) ms = set_child v ms"
  by (simp add: set_child_def)

lemma val_get_type_set_child [simp]: "val_get_type (set_child v ns) = val_get_type v"
  by (simp add: node_defs)



















subsection \<open>Running with a depth limit\<close>

text \<open>
  \<open>limit D c\<close> is the context \<open>c\<close> with \<open>max_depth\<close> set to \<open>D\<close>. A run without limit that
  returns a value is compared with the run from the limited context: \<open>agrees\<close> says that the
  limited run returns the same value and the same context when the value fits the limit, and
  fails with \<open>JSON_ERROR_DEPTH\<close> when it does not.
\<close>

definition limit :: "nat \<Rightarrow> parser_ctx \<Rightarrow> parser_ctx" where
  "limit D c = c\<lparr> max_depth := D \<rparr>"

lemma limit_simps [simp]:
  "input (limit D c) = input c" "len (limit D c) = len c" "pos (limit D c) = pos c"
  "line (limit D c) = line c" "col (limit D c) = col c" "doc (limit D c) = doc c"
  "flags (limit D c) = flags c" "max_depth (limit D c) = D" "depth (limit D c) = depth c"
  "(limit D c)\<lparr> depth := k \<rparr> = limit D (c\<lparr> depth := k \<rparr>)"
  by (simp_all add: limit_def)














lemma fail_at_limit: "fail_at e (limit D c) = (fst (fail_at e c), limit D (snd (fail_at e c)))"
  by (simp add: fail_at_def)








lemma fresh_child [simp]: "child (val_set_type (Val a 0 (Child [])) t) = []"
  by (simp add: node_defs)

lemma child_set_child [simp]: "child (set_child v ns) = ns"
  by (simp add: set_child_def)





























end
